theory Spec2Isabelle
  imports Complex_Main "HOL-Library.Multiset"
begin

section \<open>Lyrics synchronisation core of apple-music-lyrics\<close>

text \<open>
  A shallow embedding of the timing code of the repository: the LRC parser
  \<^verbatim>\<open>parseLRC\<close> and the binary search of the animation-frame \<^verbatim>\<open>loop\<close>
  (\<^verbatim>\<open>src/components/AppleMusicLyricsPlayer.tsx\<close>), the end-time inference of
  \<^verbatim>\<open>onLrcFileInput\<close>, the merge of \<^verbatim>\<open>onWaveSelection\<close>, the column scan of
  \<^verbatim>\<open>draw\<close> and the pointer handlers of the waveform editor
  (\<^verbatim>\<open>src/components/Player/Player.tsx\<close>), and the window computation of
  \<^verbatim>\<open>src/components/Player/VirtualList.tsx\<close>.

  JavaScript numbers are modelled by \<^typ>\<open>real\<close> where the code computes with
  fractions (seconds, pixels, samples) and by \<^typ>\<open>int\<close> where it holds an index or
  the result of \<^verbatim>\<open>Math.floor\<close>. Rounding of doubles, \<^verbatim>\<open>NaN\<close> and the infinities
  are outside the model. Strings are lists of 8-bit characters.
\<close>

subsection \<open>Characters and string helpers\<close>

abbreviation LF :: char where "LF \<equiv> CHR 0x0A"
abbreviation CR :: char where "CR \<equiv> CHR 0x0D"

text \<open>The class \<^verbatim>\<open>\d\<close> of a regular expression without the unicode flag: 0 to 9.\<close>

definition isDigit :: "char \<Rightarrow> bool" where
  "isDigit c = (c \<in> set ''0123456789'')"

definition digitVal :: "char \<Rightarrow> nat" where
  "digitVal c = of_char c - 48"

text \<open>
  What \<^verbatim>\<open>String.prototype.trim\<close> removes, among the characters below 256: tab, line
  feed, vertical tab, form feed, carriage return, space and the no-break space.
\<close>

definition isSpace :: "char \<Rightarrow> bool" where
  "isSpace c = (c \<in> set [CHR 0x09, CHR 0x0A, CHR 0x0B, CHR 0x0C, CHR 0x0D, CHR 0x20, CHR 0xA0])"

definition trim :: "string \<Rightarrow> string" where
  "trim s = rev (dropWhile isSpace (rev (dropWhile isSpace s)))"

text \<open>
  \<^verbatim>\<open>parseInt(s, 10)\<close> on a string of digits, and \<^verbatim>\<open>parseFloat\<close> on a string of the
  shape \<^verbatim>\<open>dd\<close> or \<^verbatim>\<open>dd.d\<close>, \<^verbatim>\<open>dd.dd\<close>, \<^verbatim>\<open>dd.ddd\<close> (the only strings the timestamp
  pattern captures): the decimal value.
\<close>

definition parseInt :: "string \<Rightarrow> nat" where
  "parseInt ds = foldl (\<lambda>n c. 10 * n + digitVal c) 0 ds"

definition parseFloat :: "string \<Rightarrow> real" where
  "parseFloat s =
     (let ip = takeWhile isDigit s; fr = takeWhile isDigit (drop (Suc (length ip)) s)
      in real (parseInt ip) + real (parseInt fr) / 10 ^ length fr)"

text \<open>
  \<^verbatim>\<open>text.split(/\r?\n/)\<close>: a line ends at a line feed, and a carriage return right
  before that line feed belongs to the separator. The result is never empty.
\<close>

fun splitLines :: "string \<Rightarrow> string list" where
  "splitLines [] = [[]]"
| "splitLines [c] = (if c = LF then [[], []] else [[c]])"
| "splitLines (c # d # cs) =
     (if c = CR \<and> d = LF then [] # splitLines cs
      else if c = LF then [] # splitLines (d # cs)
      else (case splitLines (d # cs) of
              [] \<Rightarrow> [[c]]
            | l # ls \<Rightarrow> (c # l) # ls))"

subsection \<open>The timestamp pattern\<close>

text \<open>
  \<^verbatim>\<open>/\[(\d{1,2}):(\d{2}(?:\.\d{1,3})?)\]/g\<close> tried at the head of a string. The greedy
  quantifiers never need to give a digit back: after \<^verbatim>\<open>\d{1,2}\<close> the pattern wants a
  colon, after \<^verbatim>\<open>\d{2}\<close> a dot or the closing bracket, after \<^verbatim>\<open>\d{1,3}\<close> the closing
  bracket, and none of them is a digit. The result holds the two captured groups and
  what follows the match.
\<close>

fun takeDigits :: "nat \<Rightarrow> string \<Rightarrow> string \<times> string" where
  "takeDigits 0 s = ([], s)"
| "takeDigits (Suc k) [] = ([], [])"
| "takeDigits (Suc k) (c # cs) =
     (if isDigit c then (case takeDigits k cs of (ds, r) \<Rightarrow> (c # ds, r))
      else ([], c # cs))"

definition closeBracket :: "string \<Rightarrow> string \<Rightarrow> string \<Rightarrow> (string \<times> string \<times> string) option" where
  "closeBracket m1 m2 s =
     (case s of [] \<Rightarrow> None
      | c # rest \<Rightarrow> if c = CHR '']'' then Some (m1, m2, rest) else None)"

definition matchSeconds :: "string \<Rightarrow> string \<Rightarrow> (string \<times> string \<times> string) option" where
  "matchSeconds m1 s =
     (case takeDigits 2 s of (sec, s4) \<Rightarrow>
        if length sec \<noteq> 2 then None
        else (case s4 of [] \<Rightarrow> None
              | c # s5 \<Rightarrow>
                  if c = CHR ''.'' then
                    (case takeDigits 3 s5 of (fr, s6) \<Rightarrow>
                       if fr = [] then None else closeBracket m1 (sec @ ''.'' @ fr) s6)
                  else closeBracket m1 sec s4))"

definition matchTimestamp :: "string \<Rightarrow> (string \<times> string \<times> string) option" where
  "matchTimestamp s =
     (case s of [] \<Rightarrow> None
      | c # s1 \<Rightarrow>
          if c \<noteq> CHR ''['' then None
          else (case takeDigits 2 s1 of (m1, s2) \<Rightarrow>
                  if m1 = [] then None
                  else (case s2 of [] \<Rightarrow> None
                        | c2 # s3 \<Rightarrow> if c2 = CHR '':'' then matchSeconds m1 s3 else None)))"

lemma takeDigits_length: "takeDigits k s = (ds, r) \<Longrightarrow> length r \<le> length s"
proof (induction k s arbitrary: ds r rule: takeDigits.induct)
  case (3 k c cs)
  then show ?case
    by (cases "takeDigits k cs") (auto split: if_splits)
qed auto

lemma closeBracket_length: "closeBracket m1 m2 s = Some (a, b, r) \<Longrightarrow> length r < length s"
  by (auto simp: closeBracket_def split: list.splits if_splits)

lemma matchSeconds_length: "matchSeconds m1 s = Some (a, b, r) \<Longrightarrow> length r < length s"
  unfolding matchSeconds_def
  by (auto split: prod.splits list.splits if_splits
      dest!: takeDigits_length closeBracket_length)

lemma matchTimestamp_length: "matchTimestamp s = Some (a, b, r) \<Longrightarrow> length r < length s"
  unfolding matchTimestamp_def
  by (auto split: prod.splits list.splits if_splits
      dest!: takeDigits_length matchSeconds_length)

subsection \<open>parseLRC\<close>

text \<open>
  \<^verbatim>\<open>type LyricLine = { time: number; text: string }\<close>, the time in seconds.
\<close>

record LyricLine =
  time :: real
  line_text :: string

text \<open>
  The \<^verbatim>\<open>while ((m = re.exec(raw)) !== null)\<close> loop: the matches of the pattern from
  left to right, each search starting where the previous match ended, and for each the
  number pushed to \<^verbatim>\<open>times\<close>, \<^verbatim>\<open>mm * 60 + ss\<close>. The guard against \<^verbatim>\<open>NaN\<close> never
  fires, since both groups are strings of digits.
\<close>

function execAll :: "string \<Rightarrow> real list" where
  "execAll [] = []"
| "execAll (c # cs) =
     (case matchTimestamp (c # cs) of
        Some (m1, m2, rest) \<Rightarrow> (real (parseInt m1) * 60 + parseFloat m2) # execAll rest
      | None \<Rightarrow> execAll cs)"
  by pat_completeness auto
termination
  by (relation "measure length") (auto dest: matchTimestamp_length)

text \<open>\<^verbatim>\<open>raw.replace(re, "")\<close>: the same matches, removed.\<close>

function stripTimestamps :: "string \<Rightarrow> string" where
  "stripTimestamps [] = []"
| "stripTimestamps (c # cs) =
     (case matchTimestamp (c # cs) of
        Some (m1, m2, rest) \<Rightarrow> stripTimestamps rest
      | None \<Rightarrow> c # stripTimestamps cs)"
  by pat_completeness auto
termination
  by (relation "measure length") (auto dest: matchTimestamp_length)

text \<open>
  One turn of the \<^verbatim>\<open>for (const raw of lines)\<close> loop of lines 32 to 45: what it
  pushes to \<^verbatim>\<open>out\<close>.
\<close>

definition parseLine :: "string \<Rightarrow> LyricLine list" where
  "parseLine raw =
     (if trim raw = [] then []
      else let times = execAll raw; txt = trim (stripTimestamps raw)
           in if txt = [] then []
              else map (\<lambda>t. \<lparr>time = t, line_text = txt\<rparr>) times)"

text \<open>
  \<^verbatim>\<open>parseLRC\<close>, lines 26 to 48. \<^verbatim>\<open>Array.prototype.sort\<close> is stable, as
  \<^const>\<open>sort_key\<close> is.
\<close>

definition parseLRC :: "string \<Rightarrow> LyricLine list" where
  "parseLRC text =
     (if text = [] then []
      else sort_key time (concat (map parseLine (splitLines text))))"

subsection \<open>How the pattern and the line splitting behave\<close>

lemma takeDigits_split:
  "takeDigits k s = (ds, r) \<Longrightarrow> s = ds @ r \<and> (\<forall>c\<in>set ds. isDigit c) \<and> length ds \<le> k"
proof (induction k s arbitrary: ds r rule: takeDigits.induct)
  case (3 k c cs)
  then show ?case
    by (cases "takeDigits k cs") (auto split: if_splits)
qed auto

lemma takeDigits_append:
  "takeDigits k s = (ds, c # r) \<Longrightarrow> takeDigits k (s @ v) = (ds, c # r @ v)"
proof (induction k s arbitrary: ds rule: takeDigits.induct)
  case (3 k d cs)
  then show ?case
    by (cases "takeDigits k cs") (auto split: if_splits)
qed auto

lemma closeBracket_append:
  "closeBracket m1 m2 s = Some (a, b, r) \<Longrightarrow> closeBracket m1 m2 (s @ v) = Some (a, b, r @ v)"
  by (auto simp: closeBracket_def split: list.splits if_splits)

lemma closeBracket_Some:
  "closeBracket m1 m2 s = Some (a, b, r) \<Longrightarrow> a = m1 \<and> b = m2 \<and> s = CHR '']'' # r"
  by (auto simp: closeBracket_def split: list.splits if_splits)

lemma matchSeconds_append:
  assumes "matchSeconds m1 s = Some (a, b, r)"
  shows "matchSeconds m1 (s @ v) = Some (a, b, r @ v)"
proof -
  obtain sec s4 where td: "takeDigits 2 s = (sec, s4)" by (cases "takeDigits 2 s")
  from assms td have len: "length sec = 2" and ne: "s4 \<noteq> []"
    by (auto simp: matchSeconds_def split: if_splits list.splits)
  then obtain c s5 where s4: "s4 = c # s5" by (cases s4) auto
  have td': "takeDigits 2 (s @ v) = (sec, c # s5 @ v)"
    using takeDigits_append td s4 by simp
  show ?thesis
  proof (cases "c = CHR ''.''")
    case True
    obtain fr s6 where tf: "takeDigits 3 s5 = (fr, s6)" by (cases "takeDigits 3 s5")
    from assms td s4 True tf len have fr: "fr \<noteq> []"
      and cb: "closeBracket m1 (sec @ ''.'' @ fr) s6 = Some (a, b, r)"
      by (auto simp: matchSeconds_def split: if_splits)
    from cb obtain s7 where s6: "s6 = CHR '']'' # s7"
      using closeBracket_Some by blast
    have "takeDigits 3 (s5 @ v) = (fr, CHR '']'' # s7 @ v)"
      using takeDigits_append tf s6 by simp
    then show ?thesis
      using td' True len fr closeBracket_append[OF cb, of v] s6
      by (simp add: matchSeconds_def)
  next
    case False
    from assms td s4 False len have cb: "closeBracket m1 sec s4 = Some (a, b, r)"
      by (auto simp: matchSeconds_def split: if_splits)
    show ?thesis
      using td' False len closeBracket_append[OF cb, of v] s4
      by (simp add: matchSeconds_def)
  qed
qed

lemma matchTimestamp_append:
  assumes "matchTimestamp s = Some (a, b, r)"
  shows "matchTimestamp (s @ v) = Some (a, b, r @ v)"
proof -
  from assms obtain s1 where s: "s = CHR ''['' # s1"
    by (cases s) (auto simp: matchTimestamp_def split: if_splits)
  obtain m1 s2 where td: "takeDigits 2 s1 = (m1, s2)" by (cases "takeDigits 2 s1")
  from assms s td have m1: "m1 \<noteq> []" and ne: "s2 \<noteq> []"
    by (auto simp: matchTimestamp_def split: if_splits list.splits)
  then obtain c2 s3 where s2: "s2 = c2 # s3" by (cases s2) auto
  from assms s td s2 m1 have c2: "c2 = CHR '':''" and ms: "matchSeconds m1 s3 = Some (a, b, r)"
    by (auto simp: matchTimestamp_def split: if_splits)
  have "takeDigits 2 (s1 @ v) = (m1, c2 # s3 @ v)"
    using takeDigits_append td s2 by simp
  then show ?thesis
    using s m1 c2 matchSeconds_append[OF ms, of v]
    by (simp add: matchTimestamp_def)
qed


lemma matchSeconds_shape:
  assumes "matchSeconds m1 s = Some (a, b, r)"
  shows "a = m1 \<and> s = b @ CHR '']'' # r \<and> (\<forall>c\<in>set b. isDigit c \<or> c = CHR ''.'')"
proof -
  obtain sec s4 where td: "takeDigits 2 s = (sec, s4)" by (cases "takeDigits 2 s")
  from assms td have len: "length sec = 2" and ne: "s4 \<noteq> []"
    by (auto simp: matchSeconds_def split: if_splits list.splits)
  then obtain c s5 where s4: "s4 = c # s5" by (cases s4) auto
  note sp = takeDigits_split[OF td]
  show ?thesis
  proof (cases "c = CHR ''.''")
    case True
    obtain fr s6 where tf: "takeDigits 3 s5 = (fr, s6)" by (cases "takeDigits 3 s5")
    from assms td s4 True tf len
    have cb: "closeBracket m1 (sec @ ''.'' @ fr) s6 = Some (a, b, r)"
      by (auto simp: matchSeconds_def split: if_splits)
    show ?thesis
      using closeBracket_Some[OF cb] sp takeDigits_split[OF tf] s4 True by auto
  next
    case False
    from assms td s4 False len have cb: "closeBracket m1 sec s4 = Some (a, b, r)"
      by (auto simp: matchSeconds_def split: if_splits)
    show ?thesis
      using closeBracket_Some[OF cb] sp by auto
  qed
qed

lemma matchTimestamp_shape:
  assumes "matchTimestamp s = Some (a, b, r)"
  shows "s = CHR ''['' # a @ CHR '':'' # b @ CHR '']'' # r
         \<and> (\<forall>c\<in>set a. isDigit c) \<and> (\<forall>c\<in>set b. isDigit c \<or> c = CHR ''.'')"
proof -
  from assms obtain s1 where s: "s = CHR ''['' # s1"
    by (cases s) (auto simp: matchTimestamp_def split: if_splits)
  obtain m1 s2 where td: "takeDigits 2 s1 = (m1, s2)" by (cases "takeDigits 2 s1")
  from assms s td have m1: "m1 \<noteq> []" and ne: "s2 \<noteq> []"
    by (auto simp: matchTimestamp_def split: if_splits list.splits)
  then obtain c2 s3 where s2: "s2 = c2 # s3" by (cases s2) auto
  from assms s td s2 m1 have c2: "c2 = CHR '':''" and ms: "matchSeconds m1 s3 = Some (a, b, r)"
    by (auto simp: matchTimestamp_def split: if_splits)
  show ?thesis
    using matchSeconds_shape[OF ms] takeDigits_split[OF td] s s2 c2 by auto
qed

lemma isDigit_not_LF: "isDigit c \<Longrightarrow> c \<noteq> LF"
  by (auto simp: isDigit_def)

lemma token_no_LF:
  assumes "matchTimestamp tok = Some (a, b, [])"
  shows "LF \<notin> set tok"
  using matchTimestamp_shape[OF assms] by (auto dest: isDigit_not_LF)

lemma execAll_token:
  assumes "matchTimestamp tok = Some (a, b, [])"
  shows "execAll (tok @ rest) = (real (parseInt a) * 60 + parseFloat b) # execAll rest"
proof -
  have m: "matchTimestamp (tok @ rest) = Some (a, b, rest)"
    using matchTimestamp_append[OF assms, of rest] by simp
  obtain c cs where "tok @ rest = c # cs"
    using matchTimestamp_shape[OF assms] by auto
  with m show ?thesis by (metis execAll.simps(2) option.simps(5) prod.simps(2))
qed

lemma stripTimestamps_token:
  assumes "matchTimestamp tok = Some (a, b, [])"
  shows "stripTimestamps (tok @ rest) = stripTimestamps rest"
proof -
  have m: "matchTimestamp (tok @ rest) = Some (a, b, rest)"
    using matchTimestamp_append[OF assms, of rest] by simp
  obtain c cs where "tok @ rest = c # cs"
    using matchTimestamp_shape[OF assms] by auto
  with m show ?thesis by (metis stripTimestamps.simps(2) option.simps(5) prod.simps(2))
qed

lemma execAll_Nil_prefix: "execAll (s @ v) = [] \<Longrightarrow> execAll s = []"
proof (induction s rule: execAll.induct)
  case 1
  then show ?case by simp
next
  case (2 c cs)
  show ?case
  proof (cases "matchTimestamp (c # cs)")
    case None
    have "matchTimestamp ((c # cs) @ v) = None"
      using "2.prems" by (cases "matchTimestamp ((c # cs) @ v)") auto
    then have "execAll (cs @ v) = []"
      using "2.prems" by simp
    then show ?thesis
      using "2.IH"(1)[OF None] None by simp
  next
    case (Some m)
    obtain a b r where "m = (a, b, r)" by (cases m)
    with Some have "matchTimestamp ((c # cs) @ v) = Some (a, b, r @ v)"
      using matchTimestamp_append by blast
    then show ?thesis
      using "2.prems" by simp
  qed
qed

lemma stripTimestamps_no_match: "execAll s = [] \<Longrightarrow> stripTimestamps s = s"
proof (induction s rule: execAll.induct)
  case 1
  then show ?case by simp
next
  case (2 c cs)
  then show ?case
    by (cases "matchTimestamp (c # cs)") auto
qed

lemma trim_Nil_iff: "trim s = [] \<longleftrightarrow> (\<forall>c\<in>set s. isSpace c)"
proof
  assume "trim s = []"
  then have all: "\<forall>c\<in>set (dropWhile isSpace s). isSpace c"
    by (simp add: trim_def dropWhile_eq_Nil_conv)
  have "dropWhile isSpace s = []"
  proof (rule ccontr)
    assume ne: "dropWhile isSpace s \<noteq> []"
    then have "\<not> isSpace (hd (dropWhile isSpace s))"
      by (rule hd_dropWhile)
    moreover have "hd (dropWhile isSpace s) \<in> set (dropWhile isSpace s)"
      using ne by simp
    ultimately show False using all by blast
  qed
  then show "\<forall>c\<in>set s. isSpace c"
    by (simp add: dropWhile_eq_Nil_conv)
next
  assume "\<forall>c\<in>set s. isSpace c"
  then show "trim s = []"
    by (auto simp: trim_def dest: set_dropWhileD)
qed

lemma parseLine_no_match: "execAll l = [] \<Longrightarrow> parseLine l = []"
  by (simp add: parseLine_def Let_def)

lemma splitLines_LF: "splitLines (LF # r) = [] # splitLines r"
  by (cases r) simp_all

lemma splitLines_no_LF: "LF \<notin> set s \<Longrightarrow> splitLines s = [s]"
  by (induction s rule: splitLines.induct) auto

text \<open>
  A line as \<open>splitLines\<close> returns it when a line feed follows: without the carriage
  return of a CRLF line ending.
\<close>

definition chomp :: "string \<Rightarrow> string" where
  "chomp l = (if l \<noteq> [] \<and> last l = CR then butlast l else l)"

lemma splitLines_line: "LF \<notin> set l \<Longrightarrow> splitLines (l @ LF # r) = chomp l # splitLines r"
proof (induction l rule: splitLines.induct)
  case 1
  then show ?case by (simp add: splitLines_LF chomp_def)
next
  case (2 c)
  then show ?case by (simp add: splitLines_LF chomp_def)
next
  case (3 c d cs)
  then show ?case by (auto simp: chomp_def)
qed

lemma splitLines_two: "\<exists>l k ls. splitLines (a @ [LF]) = l # k # ls"
proof (induction a rule: length_induct)
  case (1 a)
  show ?case
  proof (cases a rule: splitLines.cases)
    case 1
    then show ?thesis by simp
  next
    case (2 c)
    then show ?thesis by simp
  next
    case (3 c d cs)
    obtain l k ls where one: "splitLines (cs @ [LF]) = l # k # ls"
      using "1.IH"[rule_format, of cs] 3 by auto
    obtain l' k' ls' where two: "splitLines ((d # cs) @ [LF]) = l' # k' # ls'"
      using "1.IH"[rule_format, of "d # cs"] 3 by auto
    show ?thesis
      using 3 one two by simp
  qed
qed

lemma splitLines_append:
  "splitLines (a @ LF # r) = butlast (splitLines (a @ [LF])) @ splitLines r"
proof (induction a rule: length_induct)
  case (1 a)
  show ?case
  proof (cases a rule: splitLines.cases)
    case 1
    then show ?thesis by (simp add: splitLines_LF)
  next
    case (2 c)
    then show ?thesis by (simp add: splitLines_LF)
  next
    case (3 c d cs)
    have one: "splitLines (cs @ LF # r) = butlast (splitLines (cs @ [LF])) @ splitLines r"
      using "1.IH"[rule_format, of cs] 3 by simp
    have two: "splitLines ((d # cs) @ LF # r) = butlast (splitLines ((d # cs) @ [LF])) @ splitLines r"
      using "1.IH"[rule_format, of "d # cs"] 3 by simp
    obtain l k ls where sh: "splitLines ((d # cs) @ [LF]) = l # k # ls"
      using splitLines_two by blast
    obtain l' k' ls' where sh': "splitLines (cs @ [LF]) = l' # k' # ls'"
      using splitLines_two by blast
    show ?thesis
      using 3 one two sh sh' by simp
  qed
qed


lemma not_isDigit_CR: "\<not> isDigit CR"
  by (simp add: isDigit_def)

lemma isSpace_CR: "isSpace CR"
  by (simp add: isSpace_def)

lemma takeDigits_CR:
  "takeDigits k (s @ [CR]) = (case takeDigits k s of (ds, r) \<Rightarrow> (ds, r @ [CR]))"
proof (induction k s rule: takeDigits.induct)
  case (2 k)
  then show ?case by (simp add: not_isDigit_CR)
next
  case (3 k c cs)
  then show ?case
    by (cases "takeDigits k cs") (auto simp: not_isDigit_CR)
qed auto

text \<open>
  A carriage return at the end of a line is no part of a timestamp, and \<^verbatim>\<open>trim\<close>
  removes it from the text: a line parses the same with and without it.
\<close>

abbreviation withCR :: "string \<times> string \<times> string \<Rightarrow> string \<times> string \<times> string" where
  "withCR \<equiv> (\<lambda>(a, b, r). (a, b, r @ [CR]))"

lemma closeBracket_CR:
  "closeBracket m1 m2 (s @ [CR]) = map_option withCR (closeBracket m1 m2 s)"
  by (cases s) (auto simp: closeBracket_def)

lemma matchSeconds_CR:
  "matchSeconds m1 (s @ [CR]) = map_option withCR (matchSeconds m1 s)"
proof -
  obtain sec s4 where td: "takeDigits 2 s = (sec, s4)" by (cases "takeDigits 2 s")
  then have td': "takeDigits 2 (s @ [CR]) = (sec, s4 @ [CR])"
    by (simp add: takeDigits_CR)
  show ?thesis
  proof (cases s4)
    case Nil
    then show ?thesis
      using td td' by (simp add: matchSeconds_def closeBracket_def)
  next
    case (Cons c s5)
    obtain fr s6 where tf: "takeDigits 3 s5 = (fr, s6)" by (cases "takeDigits 3 s5")
    then have tf': "takeDigits 3 (s5 @ [CR]) = (fr, s6 @ [CR])"
      by (simp add: takeDigits_CR)
    show ?thesis
      using td td' tf tf' Cons closeBracket_CR[of m1 _ s6] closeBracket_CR[of m1 sec "c # s5"]
      by (simp add: matchSeconds_def)
  qed
qed

lemma matchTimestamp_CR:
  "matchTimestamp (s @ [CR]) = map_option withCR (matchTimestamp s)"
proof (cases s)
  case Nil
  then show ?thesis by (simp add: matchTimestamp_def)
next
  case (Cons c s1)
  obtain m1 s2 where td: "takeDigits 2 s1 = (m1, s2)" by (cases "takeDigits 2 s1")
  then have td': "takeDigits 2 (s1 @ [CR]) = (m1, s2 @ [CR])"
    by (simp add: takeDigits_CR)
  show ?thesis
  proof (cases s2)
    case Nil
    then show ?thesis
      using Cons td td' by (simp add: matchTimestamp_def)
  next
    case (Cons c2 s3)
    then show ?thesis
      using \<open>s = c # s1\<close> td td' matchSeconds_CR[of m1 s3] by (simp add: matchTimestamp_def)
  qed
qed

lemma execAll_CR: "execAll (s @ [CR]) = execAll s"
proof (induction s rule: execAll.induct)
  case 1
  then show ?case by (simp add: matchTimestamp_def)
next
  case (2 c cs)
  show ?case
  proof (cases "matchTimestamp (c # cs)")
    case None
    then have "matchTimestamp (c # cs @ [CR]) = None"
      using matchTimestamp_CR[of "c # cs"] by simp
    then show ?thesis
      using None "2.IH"(1) by simp
  next
    case (Some m)
    obtain a b r where m: "m = (a, b, r)" by (cases m)
    then have "matchTimestamp (c # cs @ [CR]) = Some (a, b, r @ [CR])"
      using matchTimestamp_CR[of "c # cs"] Some by simp
    then show ?thesis
      using Some m "2.IH"(2)[OF Some, of a "(b, r)" b r] by simp
  qed
qed

lemma stripTimestamps_CR: "stripTimestamps (s @ [CR]) = stripTimestamps s @ [CR]"
proof (induction s rule: stripTimestamps.induct)
  case 1
  then show ?case by (simp add: matchTimestamp_def)
next
  case (2 c cs)
  show ?case
  proof (cases "matchTimestamp (c # cs)")
    case None
    then have "matchTimestamp (c # cs @ [CR]) = None"
      using matchTimestamp_CR[of "c # cs"] by simp
    then show ?thesis
      using None "2.IH"(1) by simp
  next
    case (Some m)
    obtain a b r where m: "m = (a, b, r)" by (cases m)
    then have "matchTimestamp (c # cs @ [CR]) = Some (a, b, r @ [CR])"
      using matchTimestamp_CR[of "c # cs"] Some by simp
    then show ?thesis
      using Some m "2.IH"(2)[OF Some, of a "(b, r)" b r] by simp
  qed
qed

lemma trim_CR: "trim (s @ [CR]) = trim s"
proof (cases "\<forall>c\<in>set s. isSpace c")
  case True
  then have "trim s = []" by (simp add: trim_Nil_iff)
  moreover have "trim (s @ [CR]) = []"
    using True by (simp add: trim_Nil_iff isSpace_CR)
  ultimately show ?thesis by simp
next
  case False
  then obtain x where "x \<in> set s" "\<not> isSpace x" by blast
  then have "dropWhile isSpace (s @ [CR]) = dropWhile isSpace s @ [CR]"
    by (rule dropWhile_append1)
  then show ?thesis
    by (simp add: trim_def isSpace_CR)
qed

lemma parseLine_CR: "parseLine (s @ [CR]) = parseLine s"
  by (simp add: parseLine_def trim_CR execAll_CR stripTimestamps_CR)

lemma parseLine_chomp: "parseLine (chomp l) = parseLine l"
proof (cases "l \<noteq> [] \<and> last l = CR")
  case True
  then have "l = butlast l @ [CR]"
    by (metis append_butlast_last_id)
  then have "parseLine l = parseLine (butlast l)"
    using parseLine_CR[of "butlast l"] by simp
  then show ?thesis
    using True by (simp add: chomp_def)
next
  case False
  then show ?thesis by (auto simp: chomp_def)
qed

lemma parseLRC_drop_line:
  assumes "LF \<notin> set l" and "parseLine l = []"
  shows "parseLRC (a @ LF # l @ LF # b) = parseLRC (a @ LF # b)"
proof -
  have "splitLines (a @ LF # l @ LF # b)
        = butlast (splitLines (a @ [LF])) @ chomp l # splitLines b"
    using splitLines_append[of a "l @ LF # b"] splitLines_line[OF assms(1), of b] by simp
  moreover have "splitLines (a @ LF # b) = butlast (splitLines (a @ [LF])) @ splitLines b"
    by (rule splitLines_append)
  ultimately show ?thesis
    using assms(2) by (simp add: parseLRC_def parseLine_chomp)
qed

lemma parseLRC_drop_first_line:
  assumes "LF \<notin> set l" and "parseLine l = []"
  shows "parseLRC (l @ LF # b) = parseLRC b"
proof -
  have "splitLines (l @ LF # b) = chomp l # splitLines b"
    by (rule splitLines_line[OF assms(1)])
  moreover have "parseLine [] = []"
    by (simp add: parseLine_def trim_def)
  ultimately show ?thesis
    using assms(2) by (simp add: parseLRC_def parseLine_chomp)
qed

subsection \<open>Properties of parseLRC\<close>

text \<open>
  The input text whose lines are \<open>ls\<close>: the lines with a line feed between each two.
\<close>

fun joinLines :: "string list \<Rightarrow> string" where
  "joinLines [] = []"
| "joinLines [l] = l"
| "joinLines (l # k # ls) = l @ LF # joinLines (k # ls)"

lemma parseLine_Nil: "parseLine [] = []"
  by (simp add: parseLine_def trim_def)

lemma map_parseLine_joinLines:
  "\<forall>l\<in>set ls. LF \<notin> set l \<Longrightarrow> ls \<noteq> [] \<Longrightarrow>
   map parseLine (splitLines (joinLines ls)) = map parseLine ls"
proof (induction ls rule: joinLines.induct)
  case 1
  then show ?case by simp
next
  case (2 l)
  then show ?case by (simp add: splitLines_no_LF)
next
  case (3 l k ls)
  then show ?case
    by (simp add: splitLines_line parseLine_chomp)
qed

lemma parseLRC_lines:
  assumes "\<forall>l\<in>set ls. LF \<notin> set l"
  shows "parseLRC (joinLines ls) = sort_key time (concat (map parseLine ls))"
proof (cases "ls = []")
  case True
  then show ?thesis by (simp add: parseLRC_def)
next
  case False
  show ?thesis
  proof (cases "joinLines ls = []")
    case True
    then have "ls = [[]]"
      using False by (cases ls rule: joinLines.cases) auto
    then show ?thesis
      by (simp add: parseLRC_def parseLine_Nil)
  next
    case ne: False
    then show ?thesis
      using map_parseLine_joinLines[OF assms False] by (simp add: parseLRC_def)
  qed
qed

lemma concat_filter_parseLine:
  "concat (map parseLine (filter (\<lambda>l. execAll l \<noteq> []) ls)) = concat (map parseLine ls)"
  by (induction ls) (auto simp: parseLine_no_match)

lemma text_is_lines:
  "\<exists>ls. ls \<noteq> [] \<and> (\<forall>l\<in>set ls. LF \<notin> set l) \<and> joinLines ls = inp"
proof (induction inp)
  case Nil
  have "[[]] \<noteq> [] \<and> (\<forall>l\<in>set [[]]. LF \<notin> set l) \<and> joinLines [[]] = ([] :: string)"
    by simp
  then show ?case by blast
next
  case (Cons c inp)
  then obtain ls where ne: "ls \<noteq> []" and nl: "\<forall>l\<in>set ls. LF \<notin> set l"
    and j: "joinLines ls = inp"
    by blast
  obtain l rest where ls: "ls = l # rest"
    using ne by (cases ls) auto
  show ?case
  proof (cases "c = LF")
    case True
    have "joinLines ([] # l # rest) = c # inp"
      using True j ls by simp
    moreover have "\<forall>k\<in>set ([] # l # rest). LF \<notin> set k"
      using nl ls by simp
    ultimately show ?thesis by blast
  next
    case False
    have "joinLines ((c # l) # rest) = c # inp"
      using j ls by (cases rest) simp_all
    moreover have "\<forall>k\<in>set ((c # l) # rest). LF \<notin> set k"
      using nl ls False by simp
    ultimately show ?thesis by blast
  qed
qed

text \<open>
  Claim C9. \<open>parseLRC\<close> is a total function of its input (every loop of the model has
  its termination proof, and no operation of the source can throw on a string). It
  handles each line on its own: the result on a text is the stable sort by time of what
  each line yields alone. A line on which the timestamp pattern matches nowhere (no
  timestamp, or only malformed ones) yields nothing, and removing all such lines from
  the input leaves the result unchanged: the other lines still produce their segments.
  Every input \<open>inp\<close> is the text of some list of lines, so this covers every input.
\<close>

theorem parseLRC_total_linewise:
  assumes "\<forall>l\<in>set ls. LF \<notin> set l"
  shows "parseLRC (joinLines ls) = sort_key time (concat (map parseLine ls))
       \<and> parseLRC (joinLines ls) = parseLRC (joinLines (filter (\<lambda>l. execAll l \<noteq> []) ls))
       \<and> (\<forall>l\<in>set ls. execAll l = [] \<longrightarrow> parseLine l = [])
       \<and> (\<exists>ks. (\<forall>k\<in>set ks. LF \<notin> set k) \<and> joinLines ks = inp)"
proof -
  have "\<forall>l\<in>set (filter (\<lambda>l. execAll l \<noteq> []) ls). LF \<notin> set l"
    using assms by simp
  then have "parseLRC (joinLines (filter (\<lambda>l. execAll l \<noteq> []) ls))
             = sort_key time (concat (map parseLine (filter (\<lambda>l. execAll l \<noteq> []) ls)))"
    by (rule parseLRC_lines)
  then have "parseLRC (joinLines ls) = sort_key time (concat (map parseLine ls))
       \<and> parseLRC (joinLines ls) = parseLRC (joinLines (filter (\<lambda>l. execAll l \<noteq> []) ls))
       \<and> (\<forall>l\<in>set ls. execAll l = [] \<longrightarrow> parseLine l = [])"
    using parseLRC_lines[OF assms] by (simp add: concat_filter_parseLine parseLine_no_match)
  moreover have "\<exists>ks. (\<forall>k\<in>set ks. LF \<notin> set k) \<and> joinLines ks = inp"
    using text_is_lines[of inp] by blast
  ultimately show ?thesis by blast
qed

text \<open>
  Claim C10. A line whose text, once the timestamps are removed, is empty or only
  whitespace yields no segment at all, however many valid timestamps it carries: the
  parse of an input holding such a line is the parse of the input without it.
\<close>

theorem timestamp_only_line_emits_nothing:
  assumes "trim (stripTimestamps l) = []" and "LF \<notin> set l"
    and "\<forall>k\<in>set before \<union> set after. LF \<notin> set k"
  shows "parseLine l = []
       \<and> parseLRC (joinLines (before @ l # after)) = parseLRC (joinLines (before @ after))"
proof -
  have none: "parseLine l = []"
    using assms(1) by (simp add: parseLine_def Let_def)
  have "\<forall>k\<in>set (before @ l # after). LF \<notin> set k"
    using assms(2,3) by auto
  then have "parseLRC (joinLines (before @ l # after))
             = sort_key time (concat (map parseLine (before @ l # after)))"
    by (rule parseLRC_lines)
  moreover have "\<forall>k\<in>set (before @ after). LF \<notin> set k"
    using assms(3) by auto
  then have "parseLRC (joinLines (before @ after))
             = sort_key time (concat (map parseLine (before @ after)))"
    by (rule parseLRC_lines)
  ultimately show ?thesis
    using none by simp
qed

text \<open>
  The bracketed timestamp with minutes \<open>m1\<close> and seconds \<open>m2\<close>, as it stands in an LRC
  line. It is valid when the pattern matches all of it: \<open>m1\<close> is one or two digits and
  \<open>m2\<close> two digits, with a dot and one to three digits after them or without.
\<close>

definition stamp :: "string \<Rightarrow> string \<Rightarrow> string" where
  "stamp m1 m2 = ''['' @ m1 @ '':'' @ m2 @ '']''"

lemma execAll_stamps:
  assumes "\<forall>(m1, m2)\<in>set stamps. matchTimestamp (stamp m1 m2) = Some (m1, m2, [])"
  shows "execAll (concat (map (\<lambda>(m1, m2). stamp m1 m2) stamps) @ rest)
         = map (\<lambda>(m1, m2). real (parseInt m1) * 60 + parseFloat m2) stamps @ execAll rest"
  using assms
proof (induction stamps)
  case Nil
  then show ?case by simp
next
  case (Cons p stamps)
  obtain m1 m2 where p: "p = (m1, m2)" by (cases p)
  have m: "matchTimestamp (stamp m1 m2) = Some (m1, m2, [])"
    using Cons.prems p by simp
  show ?case
    using Cons.IH Cons.prems p execAll_token[OF m] by simp
qed

lemma stripTimestamps_stamps:
  assumes "\<forall>(m1, m2)\<in>set stamps. matchTimestamp (stamp m1 m2) = Some (m1, m2, [])"
  shows "stripTimestamps (concat (map (\<lambda>(m1, m2). stamp m1 m2) stamps) @ rest)
         = stripTimestamps rest"
  using assms
proof (induction stamps)
  case Nil
  then show ?case by simp
next
  case (Cons p stamps)
  obtain m1 m2 where p: "p = (m1, m2)" by (cases p)
  have m: "matchTimestamp (stamp m1 m2) = Some (m1, m2, [])"
    using Cons.prems p by simp
  show ?case
    using Cons.IH Cons.prems p stripTimestamps_token[OF m] by simp
qed

lemma stamps_no_LF:
  assumes "\<forall>(m1, m2)\<in>set stamps. matchTimestamp (stamp m1 m2) = Some (m1, m2, [])"
  shows "LF \<notin> set (concat (map (\<lambda>(m1, m2). stamp m1 m2) stamps))"
  using assms by (auto dest: token_no_LF)


text \<open>
  Claim C6. A line made of \<open>n\<close> valid bracketed timestamps followed by a text (with no
  timestamp in it, and not only whitespace) parses to \<open>n\<close> segments, one for each
  timestamp, equal ones included, each with the trimmed text of the line and the time
  \<open>mm * 60 + ss\<close> of its timestamp, in ascending order of time. The line
  \<^verbatim>\<open>[00:01.00][00:02.00] x\<close> gives two segments with the text \<^verbatim>\<open>x\<close>, at 1 and 2 seconds:
  1000 and 2000 milliseconds.
\<close>

theorem timestamps_fan_out:
  assumes "\<forall>(m1, m2)\<in>set stamps. matchTimestamp (stamp m1 m2) = Some (m1, m2, [])"
    and "execAll lyric = []" and "LF \<notin> set lyric" and "trim lyric \<noteq> []"
  shows "parseLRC (concat (map (\<lambda>(m1, m2). stamp m1 m2) stamps) @ lyric)
         = sort_key time
             (map (\<lambda>(m1, m2). \<lparr>time = real (parseInt m1) * 60 + parseFloat m2,
                               line_text = trim lyric\<rparr>) stamps)
       \<and> length (parseLRC (concat (map (\<lambda>(m1, m2). stamp m1 m2) stamps) @ lyric)) = length stamps
       \<and> parseLRC ''[00:01.00][00:02.00] x''
         = [\<lparr>time = 1, line_text = ''x''\<rparr>, \<lparr>time = 2, line_text = ''x''\<rparr>]
       \<and> map (\<lambda>l. time l * 1000) (parseLRC ''[00:01.00][00:02.00] x'') = [1000, 2000]"
proof -
  let ?raw = "concat (map (\<lambda>(m1, m2). stamp m1 m2) stamps) @ lyric"
  obtain x where x: "x \<in> set lyric" "\<not> isSpace x"
    using assms(4) by (auto simp: trim_Nil_iff)
  then have "x \<in> set ?raw" by simp
  then have raw: "trim ?raw \<noteq> []"
    using x(2) unfolding trim_Nil_iff by blast
  have ne: "?raw \<noteq> []"
    using x(1) by auto
  have "LF \<notin> set ?raw"
    using stamps_no_LF[OF assms(1)] assms(3) by simp
  then have lines: "splitLines ?raw = [?raw]"
    by (rule splitLines_no_LF)
  have times: "execAll ?raw
               = map (\<lambda>(m1, m2). real (parseInt m1) * 60 + parseFloat m2) stamps"
    using execAll_stamps[OF assms(1), of lyric] assms(2) by simp
  have residue: "stripTimestamps ?raw = lyric"
    using stripTimestamps_stamps[OF assms(1), of lyric] stripTimestamps_no_match[OF assms(2)]
    by simp
  have "parseLine ?raw
        = map (\<lambda>(m1, m2). \<lparr>time = real (parseInt m1) * 60 + parseFloat m2,
                          line_text = trim lyric\<rparr>) stamps"
    unfolding parseLine_def Let_def times residue using raw assms(4)
    by (simp add: case_prod_unfold comp_def)
  moreover have "parseLRC ?raw = sort_key time (concat (map parseLine (splitLines ?raw)))"
    using ne unfolding parseLRC_def by (rule if_not_P)
  ultimately have general: "parseLRC ?raw
         = sort_key time
             (map (\<lambda>(m1, m2). \<lparr>time = real (parseInt m1) * 60 + parseFloat m2,
                               line_text = trim lyric\<rparr>) stamps)"
    unfolding lines by simp
  then have count: "length (parseLRC ?raw) = length stamps"
    by simp
  have scenario: "parseLRC ''[00:01.00][00:02.00] x''
         = [\<lparr>time = 1, line_text = ''x''\<rparr>, \<lparr>time = 2, line_text = ''x''\<rparr>]"
    by code_simp
  then have millis: "map (\<lambda>l. time l * 1000) (parseLRC ''[00:01.00][00:02.00] x'') = [1000, 2000]"
    by simp
  from general count scenario millis show ?thesis by blast
qed

theorem timestamps_fan_out_witness:
  "matchTimestamp (stamp ''00'' ''03.50'') = Some (''00'', ''03.50'', [])
   \<and> matchTimestamp (stamp ''00'' ''01.00'') = Some (''00'', ''01.00'', [])
   \<and> execAll '' la la'' = [] \<and> LF \<notin> set '' la la'' \<and> trim '' la la'' \<noteq> []
   \<and> parseLRC ''[00:03.50][00:01.00][00:03.50] la la''
     = [\<lparr>time = 1, line_text = ''la la''\<rparr>, \<lparr>time = 7 / 2, line_text = ''la la''\<rparr>,
        \<lparr>time = 7 / 2, line_text = ''la la''\<rparr>]"
proof -
  have h1: "\<forall>(m1, m2)\<in>set [(''00'', ''03.50''), (''00'', ''01.00''), (''00'', ''03.50'')].
      matchTimestamp (stamp m1 m2) = Some (m1, m2, [])"
    by code_simp
  have h2: "execAll '' la la'' = []" by code_simp
  have h3: "LF \<notin> set '' la la''" by code_simp
  have h4: "trim '' la la'' \<noteq> []" by code_simp
  have v: "sort_key time
             (map (\<lambda>(m1, m2). \<lparr>time = real (parseInt m1) * 60 + parseFloat m2,
                               line_text = trim '' la la''\<rparr>)
                [(''00'', ''03.50''), (''00'', ''01.00''), (''00'', ''03.50'')])
           = [\<lparr>time = 1, line_text = ''la la''\<rparr>, \<lparr>time = 7 / 2, line_text = ''la la''\<rparr>,
              \<lparr>time = 7 / 2, line_text = ''la la''\<rparr>]"
    by code_simp
  have c: "concat (map (\<lambda>(m1, m2). stamp m1 m2)
                [(''00'', ''03.50''), (''00'', ''01.00''), (''00'', ''03.50'')]) @ '' la la''
           = ''[00:03.50][00:01.00][00:03.50] la la''"
    by (simp add: stamp_def)
  note general = timestamps_fan_out[OF h1 h2 h3 h4, THEN conjunct1]
  have "parseLRC ''[00:03.50][00:01.00][00:03.50] la la''
     = [\<lparr>time = 1, line_text = ''la la''\<rparr>, \<lparr>time = 7 / 2, line_text = ''la la''\<rparr>,
        \<lparr>time = 7 / 2, line_text = ''la la''\<rparr>]"
    using general unfolding c v .
  moreover have "matchTimestamp (stamp ''00'' ''03.50'') = Some (''00'', ''03.50'', [])"
    and "matchTimestamp (stamp ''00'' ''01.00'') = Some (''00'', ''01.00'', [])"
    using h1 by simp_all
  ultimately show ?thesis
    using h2 h3 h4 by (intro conjI)
qed

theorem parseLRC_total_linewise_witness:
  "LF \<notin> set (concat [''[00:04.00] b'', ''[0:4] broken'', ''no stamp'', ''[00:01.00] a''])
   \<and> execAll ''[0:4] broken'' = [] \<and> execAll ''no stamp'' = []
   \<and> parseLRC (joinLines [''[00:04.00] b'', ''[0:4] broken'', ''no stamp'', ''[00:01.00] a''])
     = [\<lparr>time = 1, line_text = ''a''\<rparr>, \<lparr>time = 4, line_text = ''b''\<rparr>]"
proof -
  have h: "\<forall>l\<in>set [''[00:04.00] b'', ''[0:4] broken'', ''no stamp'', ''[00:01.00] a'']. LF \<notin> set l"
    by code_simp
  have e1: "execAll ''[0:4] broken'' = []" by code_simp
  have e2: "execAll ''no stamp'' = []" by code_simp
  have v: "sort_key time (concat (map parseLine
             [''[00:04.00] b'', ''[0:4] broken'', ''no stamp'', ''[00:01.00] a'']))
           = [\<lparr>time = 1, line_text = ''a''\<rparr>, \<lparr>time = 4, line_text = ''b''\<rparr>]"
    by code_simp
  have n: "LF \<notin> set (concat [''[00:04.00] b'', ''[0:4] broken'', ''no stamp'', ''[00:01.00] a''])"
    by code_simp
  have "parseLRC (joinLines [''[00:04.00] b'', ''[0:4] broken'', ''no stamp'', ''[00:01.00] a''])
     = [\<lparr>time = 1, line_text = ''a''\<rparr>, \<lparr>time = 4, line_text = ''b''\<rparr>]"
    using parseLRC_total_linewise[OF h, THEN conjunct1] unfolding v .
  with n e1 e2 show ?thesis
    by (intro conjI)
qed

theorem timestamp_only_line_emits_nothing_witness:
  "trim (stripTimestamps ''[00:02.00][00:03.00]  '') = [] \<and> LF \<notin> set ''[00:02.00][00:03.00]  ''
   \<and> LF \<notin> set ''[00:01.00] a'' \<and> LF \<notin> set ''[00:04.00] b''
   \<and> execAll ''[00:02.00][00:03.00]  '' = [2, 3]
   \<and> parseLine ''[00:02.00][00:03.00]  '' = []
   \<and> parseLRC (joinLines ([''[00:01.00] a''] @ ''[00:02.00][00:03.00]  '' # [''[00:04.00] b'']))
     = [\<lparr>time = 1, line_text = ''a''\<rparr>, \<lparr>time = 4, line_text = ''b''\<rparr>]"
proof -
  have h1: "trim (stripTimestamps ''[00:02.00][00:03.00]  '') = []" by code_simp
  have h2: "LF \<notin> set ''[00:02.00][00:03.00]  ''" by code_simp
  have h3: "\<forall>k\<in>set [''[00:01.00] a''] \<union> set [''[00:04.00] b'']. LF \<notin> set k" by code_simp
  have e: "execAll ''[00:02.00][00:03.00]  '' = [2, 3]" by code_simp
  have v: "parseLRC (joinLines ([''[00:01.00] a''] @ [''[00:04.00] b'']))
           = [\<lparr>time = 1, line_text = ''a''\<rparr>, \<lparr>time = 4, line_text = ''b''\<rparr>]"
    by code_simp
  have n1: "LF \<notin> set ''[00:01.00] a''" and n2: "LF \<notin> set ''[00:04.00] b''"
    by code_simp+
  note dropped = timestamp_only_line_emits_nothing[OF h1 h2 h3]
  have "parseLRC (joinLines ([''[00:01.00] a''] @ ''[00:02.00][00:03.00]  '' # [''[00:04.00] b'']))
     = [\<lparr>time = 1, line_text = ''a''\<rparr>, \<lparr>time = 4, line_text = ''b''\<rparr>]"
    using dropped[THEN conjunct2] unfolding v .
  with h1 h2 n1 n2 e dropped[THEN conjunct1] show ?thesis
    by (intro conjI)
qed

subsection \<open>The current line: binary search of the sync loop\<close>

text \<open>
  The binary search of \<^verbatim>\<open>loop\<close>, lines 157 to 167 of
  \<^verbatim>\<open>AppleMusicLyricsPlayer.tsx\<close>: \<open>search\<close> is the \<^verbatim>\<open>while (low <= high)\<close> loop on its
  three variables. Reading \<^verbatim>\<open>lyrics[mid].time\<close> outside the array throws a TypeError
  (the element is \<^verbatim>\<open>undefined\<close>); the model returns \<open>None\<close> there. The elements may
  carry any further fields: only \<open>time\<close>, the start time of the line, is read.
\<close>

function search :: "'a LyricLine_scheme list \<Rightarrow> real \<Rightarrow> int \<Rightarrow> int \<Rightarrow> int \<Rightarrow> int option" where
  "search lyrics t low high ans =
     (if low \<le> high then
        (let mid = (low + high) div 2 in
         if mid < 0 \<or> int (length lyrics) \<le> mid then None
         else if time (lyrics ! nat mid) \<le> t then search lyrics t (mid + 1) high mid
         else search lyrics t low (mid - 1) ans)
      else Some ans)"
  by pat_completeness auto
termination
  by (relation "measure (\<lambda>(lyrics, t, low, high, ans). nat (high - low + 1))") auto

text \<open>The search as the loop starts it: \<^verbatim>\<open>low = 0, high = lyrics.length - 1, ans = -1\<close>.\<close>

definition currentIndex :: "'a LyricLine_scheme list \<Rightarrow> real \<Rightarrow> int option" where
  "currentIndex lyrics t = search lyrics t 0 (int (length lyrics) - 1) (- 1)"

text \<open>
  The linear scan the specification compares the lookup with: the last index, in a
  walk from left to right, whose start time is at most \<open>t\<close>, and \<open>-1\<close> without one.
\<close>

definition naiveScan :: "'a LyricLine_scheme list \<Rightarrow> real \<Rightarrow> int" where
  "naiveScan lyrics t =
     foldl (\<lambda>ans i. if time (lyrics ! i) \<le> t then int i else ans) (- 1) [0..<length lyrics]"

declare search.simps [simp del]

lemma search_correct:
  assumes "sorted (map time lyrics)"
    and "0 \<le> low" and "high < int (length lyrics)" and "low \<le> high + 1"
    and "ans = low - 1"
    and "\<And>i. i < length lyrics \<Longrightarrow> int i < low \<Longrightarrow> time (lyrics ! i) \<le> t"
    and "\<And>i. i < length lyrics \<Longrightarrow> high < int i \<Longrightarrow> t < time (lyrics ! i)"
  shows "\<exists>r. search lyrics t low high ans = Some r \<and> - 1 \<le> r \<and> r < int (length lyrics)
           \<and> (\<forall>i<length lyrics. time (lyrics ! i) \<le> t \<longleftrightarrow> int i \<le> r)"
  using assms
proof (induction lyrics t low high ans rule: search.induct)
  case (1 lyrics t low high ans)
  show ?case
  proof (cases "low \<le> high")
    case False
    with "1.prems" have eq: "low = high + 1" by simp
    have "search lyrics t low high ans = Some ans"
      using False by (simp add: search.simps)
    moreover have "\<forall>i<length lyrics. time (lyrics ! i) \<le> t \<longleftrightarrow> int i \<le> ans"
    proof (intro allI impI iffI)
      fix i assume i: "i < length lyrics" and "time (lyrics ! i) \<le> t"
      then show "int i \<le> ans"
        using "1.prems"(7)[of i] "1.prems"(5) eq by fastforce
    next
      fix i assume i: "i < length lyrics" and "int i \<le> ans"
      then show "time (lyrics ! i) \<le> t"
        using "1.prems"(6)[of i] "1.prems"(5) by simp
    qed
    ultimately show ?thesis
      using "1.prems" eq by simp
  next
    case True
    define mid where "mid = (low + high) div 2"
    have mid: "low \<le> mid" "mid \<le> high"
      using True by (simp_all add: mid_def)
    then have inr: "\<not> (mid < 0 \<or> int (length lyrics) \<le> mid)"
      using "1.prems" by simp
    have nm: "nat mid < length lyrics"
      using inr by linarith
    show ?thesis
    proof (cases "time (lyrics ! nat mid) \<le> t")
      case le: True
      have step: "search lyrics t low high ans = search lyrics t (mid + 1) high mid"
        using True inr le by (subst search.simps) (simp add: mid_def Let_def)
      have "\<exists>r. search lyrics t (mid + 1) high mid = Some r \<and> - 1 \<le> r \<and> r < int (length lyrics)
           \<and> (\<forall>i<length lyrics. time (lyrics ! i) \<le> t \<longleftrightarrow> int i \<le> r)"
      proof (rule "1.IH"(1)[OF True mid_def inr le])
        show "sorted (map time lyrics)" by fact
        show "0 \<le> mid + 1" using mid "1.prems" by simp
        show "high < int (length lyrics)" by fact
        show "mid + 1 \<le> high + 1" using mid by simp
        show "mid = mid + 1 - 1" by simp
        show "time (lyrics ! i) \<le> t" if "i < length lyrics" "int i < mid + 1" for i
        proof -
          have "i \<le> nat mid" using that by simp
          then have "map time lyrics ! i \<le> map time lyrics ! nat mid"
            using "1.prems"(1) nm by (intro sorted_nth_mono) simp_all
          then show ?thesis using le that nm by simp
        qed
        show "t < time (lyrics ! i)" if "i < length lyrics" "high < int i" for i
          using that "1.prems"(7) by simp
      qed
      with step show ?thesis by simp
    next
      case gt: False
      have step: "search lyrics t low high ans = search lyrics t low (mid - 1) ans"
        using True inr gt by (subst search.simps) (simp add: mid_def Let_def)
      have "\<exists>r. search lyrics t low (mid - 1) ans = Some r \<and> - 1 \<le> r \<and> r < int (length lyrics)
           \<and> (\<forall>i<length lyrics. time (lyrics ! i) \<le> t \<longleftrightarrow> int i \<le> r)"
      proof (rule "1.IH"(2)[OF True mid_def inr gt])
        show "sorted (map time lyrics)" by fact
        show "0 \<le> low" by fact
        show "mid - 1 < int (length lyrics)" using inr by simp
        show "low \<le> mid - 1 + 1" using mid by simp
        show "ans = low - 1" by fact
        show "time (lyrics ! i) \<le> t" if "i < length lyrics" "int i < low" for i
          using that "1.prems"(6) by simp
        show "t < time (lyrics ! i)" if "i < length lyrics" "mid - 1 < int i" for i
        proof -
          have "nat mid \<le> i" using that by simp
          then have "map time lyrics ! nat mid \<le> map time lyrics ! i"
            using "1.prems"(1) that by (intro sorted_nth_mono) simp_all
          then show ?thesis using gt that nm by simp
        qed
      qed
      with step show ?thesis by simp
    qed
  qed
qed

lemma naive_prefix:
  "k \<le> length lyrics \<Longrightarrow>
   (let r = foldl (\<lambda>ans i. if time (lyrics ! i) \<le> t then int i else ans) (- 1) [0..<k]
    in - 1 \<le> r \<and> r < int k \<and> (0 \<le> r \<longrightarrow> time (lyrics ! nat r) \<le> t)
       \<and> (\<forall>i<k. r < int i \<longrightarrow> t < time (lyrics ! i)))"
proof (induction k)
  case 0
  then show ?case by simp
next
  case (Suc k)
  then show ?case
    by (auto simp: Let_def less_Suc_eq)
qed


lemma naiveScan_spec:
  "- 1 \<le> naiveScan lyrics t \<and> naiveScan lyrics t < int (length lyrics)
   \<and> (0 \<le> naiveScan lyrics t \<longrightarrow> time (lyrics ! nat (naiveScan lyrics t)) \<le> t)
   \<and> (\<forall>i<length lyrics. naiveScan lyrics t < int i \<longrightarrow> t < time (lyrics ! i))"
  using naive_prefix[of "length lyrics" lyrics t] by (simp add: naiveScan_def Let_def)

lemma search_cong:
  "map time other = map time lyrics \<Longrightarrow> search other t low high ans = search lyrics t low high ans"
proof (induction lyrics t low high ans rule: search.induct)
  case (1 lyrics t low high ans)
  have len: "length other = length lyrics"
    using "1.prems" by (metis length_map)
  have nth: "time (other ! i) = time (lyrics ! i)" if "i < length lyrics" for i
    using "1.prems" that len by (metis nth_map)
  show ?case
  proof (cases "low \<le> high")
    case False
    then show ?thesis by (simp add: search.simps)
  next
    case True
    define mid where "mid = (low + high) div 2"
    show ?thesis
    proof (cases "mid < 0 \<or> int (length lyrics) \<le> mid")
      case out: True
      then show ?thesis
        using True len by (simp add: search.simps[of other] search.simps[of lyrics] mid_def Let_def)
    next
      case inr: False
      then have nm: "nat mid < length lyrics" by linarith
      show ?thesis
      proof (cases "time (lyrics ! nat mid) \<le> t")
        case le: True
        have "search other t (mid + 1) high mid = search lyrics t (mid + 1) high mid"
          by (rule "1.IH"(1)[OF True mid_def inr le "1.prems"])
        then show ?thesis
          using True inr le len nth[OF nm]
          by (simp add: search.simps[of other t low] search.simps[of lyrics t low] mid_def Let_def)
      next
        case gt: False
        have "search other t low (mid - 1) ans = search lyrics t low (mid - 1) ans"
          by (rule "1.IH"(2)[OF True mid_def inr gt "1.prems"])
        then show ?thesis
          using True inr gt len nth[OF nm]
          by (simp add: search.simps[of other t low] search.simps[of lyrics t low] mid_def Let_def)
      qed
    qed
  qed
qed


text \<open>
  Claim C1. On a list sorted ascending by start time, for every playback time \<open>t\<close>, the
  lookup returns (without throwing) an index \<open>r\<close> between \<open>-1\<close> and the last index such
  that exactly the indices up to \<open>r\<close> have a start time at most \<open>t\<close>: \<open>r\<close> is the largest
  index whose start time is at most \<open>t\<close>, the last of any run of equal start times
  included, and \<open>-1\<close> when there is none (the empty list, or a negative \<open>t\<close> when no
  start time is negative). The result is that of the linear scan, and it is the same
  for every list with the same start times, whatever its other fields (an end time
  among them) hold.
\<close>

theorem currentIndex_largest_start:
  assumes "sorted (map time lyrics)"
  shows "\<exists>r. currentIndex lyrics t = Some r
           \<and> r = naiveScan lyrics t
           \<and> - 1 \<le> r \<and> r < int (length lyrics)
           \<and> (\<forall>i<length lyrics. time (lyrics ! i) \<le> t \<longleftrightarrow> int i \<le> r)
           \<and> (\<forall>other. map time other = map time lyrics \<longrightarrow> currentIndex other t = Some r)
           \<and> ((\<forall>x\<in>set lyrics. 0 \<le> time x) \<and> t < 0 \<longrightarrow> r = - 1)
           \<and> (lyrics = [] \<longrightarrow> r = - 1)"
proof -
  let ?n = "length lyrics"
  have "\<exists>r. search lyrics t 0 (int ?n - 1) (- 1) = Some r \<and> - 1 \<le> r \<and> r < int ?n
           \<and> (\<forall>i<?n. time (lyrics ! i) \<le> t \<longleftrightarrow> int i \<le> r)"
    by (rule search_correct[OF assms]) simp_all
  then obtain r where run: "search lyrics t 0 (int ?n - 1) (- 1) = Some r"
    and lo: "- 1 \<le> r" and hi: "r < int ?n"
    and char: "\<forall>i<?n. time (lyrics ! i) \<le> t \<longleftrightarrow> int i \<le> r"
    by blast
  let ?s = "naiveScan lyrics t"
  have naive: "r = ?s"
  proof (rule antisym)
    show "r \<le> ?s"
    proof (cases "0 \<le> r")
      case True
      then have "nat r < ?n" using hi by linarith
      moreover have "time (lyrics ! nat r) \<le> t"
        using char True \<open>nat r < ?n\<close> by simp
      ultimately have "\<not> ?s < int (nat r)"
        using naiveScan_spec[of lyrics t] by force
      then show ?thesis using True by simp
    next
      case False
      then show ?thesis using lo naiveScan_spec[of lyrics t] by simp
    qed
    show "?s \<le> r"
    proof (cases "0 \<le> ?s")
      case True
      then have "nat ?s < ?n" using naiveScan_spec[of lyrics t] by linarith
      moreover have "time (lyrics ! nat ?s) \<le> t"
        using naiveScan_spec[of lyrics t] True by simp
      ultimately have "int (nat ?s) \<le> r"
        using char by blast
      then show ?thesis using True by simp
    next
      case False
      then show ?thesis using lo by simp
    qed
  qed
  have others: "currentIndex other t = Some r" if "map time other = map time lyrics" for other :: "'b LyricLine_scheme list"
  proof -
    have "length other = ?n" using that by (metis length_map)
    then show ?thesis
      using search_cong[OF that, of t 0 "int ?n - 1" "- 1"] run by (simp add: currentIndex_def)
  qed
  have neg: "r = - 1" if "\<forall>x\<in>set lyrics. 0 \<le> time x" and "t < 0"
  proof (rule ccontr)
    assume "r \<noteq> - 1"
    then have "0 \<le> r" using lo by simp
    then have "nat r < ?n" using hi by linarith
    then have "time (lyrics ! nat r) \<le> t" using char \<open>0 \<le> r\<close> by simp
    moreover have "0 \<le> time (lyrics ! nat r)" using that(1) \<open>nat r < ?n\<close> by simp
    ultimately show False using that(2) by simp
  qed
  have emp: "r = - 1" if "lyrics = []"
    using that lo hi by simp
  show ?thesis
    using run naive lo hi char others neg emp unfolding currentIndex_def by blast
qed

theorem currentIndex_largest_start_witness:
  "sorted (map time [\<lparr>time = 0, line_text = ''a''\<rparr>, \<lparr>time = 4, line_text = ''b''\<rparr>,
                     \<lparr>time = 4, line_text = ''c''\<rparr>, \<lparr>time = 17 / 2, line_text = ''d''\<rparr>])
   \<and> currentIndex [\<lparr>time = 0, line_text = ''a''\<rparr>, \<lparr>time = 4, line_text = ''b''\<rparr>,
                   \<lparr>time = 4, line_text = ''c''\<rparr>, \<lparr>time = 17 / 2, line_text = ''d''\<rparr>] 5 = Some 2
   \<and> naiveScan [\<lparr>time = 0, line_text = ''a''\<rparr>, \<lparr>time = 4, line_text = ''b''\<rparr>,
                \<lparr>time = 4, line_text = ''c''\<rparr>, \<lparr>time = 17 / 2, line_text = ''d''\<rparr>] 5 = 2"
proof -
  let ?L = "[\<lparr>time = 0, line_text = ''a''\<rparr>, \<lparr>time = 4, line_text = ''b''\<rparr>,
             \<lparr>time = 4, line_text = ''c''\<rparr>, \<lparr>time = 17 / 2, line_text = ''d''\<rparr>]"
  have srt: "sorted (map time ?L)" by simp
  have scan: "naiveScan ?L 5 = 2" by code_simp
  from currentIndex_largest_start[OF srt, of 5] scan srt show ?thesis by auto
qed

subsection \<open>Segments: end-time inference and manual insertion\<close>

text \<open>
  \<^verbatim>\<open>Segment\<close> is imported from \<^verbatim>\<open>./TimingCore\<close>; the fields are those the sources read
  and write (\<^verbatim>\<open>id\<close>, \<^verbatim>\<open>start_ms\<close>, \<^verbatim>\<open>end_ms\<close>, \<^verbatim>\<open>text\<close>, \<^verbatim>\<open>words\<close>). A field that may
  be \<^verbatim>\<open>undefined\<close> is an option. Times are whole milliseconds.
\<close>

record Word =
  word_text :: string
  word_start_ms :: int
  word_end_ms :: int

record Segment =
  seg_id :: string
  start_ms :: int
  end_ms :: "int option"
  seg_text :: string
  words :: "Word list option"

text \<open>
  The test of line 244 of \<^verbatim>\<open>Player.tsx\<close>,
  \<^verbatim>\<open>!segs[i].end_ms || segs[i].end_ms <= segs[i].start_ms\<close>: the end time is absent, or
  zero (which is falsy as well), or not after the start.
\<close>

definition needsEnd :: "Segment \<Rightarrow> bool" where
  "needsEnd s = (case end_ms s of None \<Rightarrow> True | Some e \<Rightarrow> e = 0 \<or> e \<le> start_ms s)"

text \<open>
  The loop of lines 243 to 245,
  \<^verbatim>\<open>for (let i = 0; i < segs.length - 1; i++) if (...) segs[i].end_ms = segs[i + 1].start_ms - 1\<close>,
  on the array it updates in place; \<open>i\<close> is the loop counter.
\<close>

function inferLoop :: "nat \<Rightarrow> Segment list \<Rightarrow> Segment list" where
  "inferLoop i segs =
     (if i + 1 < length segs then
        inferLoop (i + 1)
          (if needsEnd (segs ! i)
           then segs[i := (segs ! i)\<lparr>end_ms := Some (start_ms (segs ! (i + 1)) - 1)\<rparr>]
           else segs)
      else segs)"
  by pat_completeness auto
termination
  by (relation "measure (\<lambda>(i, segs). length segs - i)") auto

definition inferEndTimes :: "Segment list \<Rightarrow> Segment list" where
  "inferEndTimes segs = inferLoop 0 segs"

text \<open>
  \<^verbatim>\<open>onWaveSelection\<close>, lines 255 to 262: the new segment, and the list handed to
  \<^verbatim>\<open>setSegments\<close> and to the timing core. The template literal \<^verbatim>\<open>`manual-${startMs}`\<close>
  applies the number-to-string conversion of JavaScript to a double; that conversion
  is a parameter of the model. The sort is stable.
\<close>

definition manualSegment :: "(real \<Rightarrow> string) \<Rightarrow> real \<Rightarrow> real \<Rightarrow> Segment" where
  "manualSegment numberToString startMs endMs =
     \<lparr>seg_id = ''manual-'' @ numberToString startMs, start_ms = \<lfloor>startMs\<rfloor>,
      end_ms = Some \<lfloor>endMs\<rfloor>, seg_text = ''Selected segment'', words = None\<rparr>"

definition onWaveSelection :: "(real \<Rightarrow> string) \<Rightarrow> Segment list \<Rightarrow> real \<Rightarrow> real \<Rightarrow> Segment list" where
  "onWaveSelection numberToString s startMs endMs =
     sort_key start_ms (s @ [manualSegment numberToString startMs endMs])"

text \<open>
  The decimal numeral of a whole number, which is what the conversion of JavaScript
  gives for an integral value below \<open>10\<^sup>2\<^sup>1\<close>; the examples below use it at such
  values only.
\<close>

fun digitsOf :: "nat \<Rightarrow> string" where
  "digitsOf n =
     (if n < 10 then [''0123456789'' ! n]
      else digitsOf (n div 10) @ [''0123456789'' ! (n mod 10)])"

definition integerString :: "real \<Rightarrow> string" where
  "integerString x = (if x < 0 then ''-'' else []) @ digitsOf (nat \<lfloor>\<bar>x\<bar>\<rfloor>)"

text \<open>
  Modelled from the spec: \<^verbatim>\<open>parseAnyToSegments\<close> of \<^verbatim>\<open>./parsers\<close>, which is not among the
  sources, for the format \<^verbatim>\<open>lrc\<close>. The specification has every timestamp of a line
  produce one segment with the text of the line, drops lines without text, and sorts
  by start time: that is \<open>parseLRC\<close> above, with the start time in milliseconds and no
  end time yet. The specification does not say how the ids are made; \<open>ids\<close> gives the
  id of the segment at each position.
\<close>

definition parseAnyToSegments :: "(nat \<Rightarrow> string) \<Rightarrow> string \<Rightarrow> Segment list" where
  "parseAnyToSegments ids text =
     map (\<lambda>(i, l). \<lparr>seg_id = ids i, start_ms = \<lfloor>time l * 1000\<rfloor>, end_ms = None,
                    seg_text = line_text l, words = None\<rparr>)
       (enumerate 0 (parseLRC text))"

text \<open>
  \<^verbatim>\<open>onLrcFileInput\<close>, lines 242 to 247: the segments handed to \<^verbatim>\<open>setSegments\<close>.
\<close>

definition onLrcFileInput :: "(nat \<Rightarrow> string) \<Rightarrow> string \<Rightarrow> Segment list" where
  "onLrcFileInput ids text = inferEndTimes (parseAnyToSegments ids text)"

text \<open>
  A list with inferred end times: every segment but the last whose end time is absent,
  zero or not after its start has the start of the next segment minus one as its end
  time.
\<close>

fun endsInferred :: "Segment list \<Rightarrow> bool" where
  "endsInferred (s # n # rest) =
     ((needsEnd s \<longrightarrow> end_ms s = Some (start_ms n - 1)) \<and> endsInferred (n # rest))"
| "endsInferred segs = True"


declare inferLoop.simps [simp del]

lemma inferLoop_length: "length (inferLoop i segs) = length segs"
proof (induction i segs rule: inferLoop.induct)
  case (1 i segs)
  show ?case
  proof (cases "i + 1 < length segs")
    case True
    then show ?thesis
      using "1.IH" by (subst inferLoop.simps) simp
  next
    case False
    then show ?thesis by (subst inferLoop.simps) simp
  qed
qed

lemma inferLoop_nth:
  "j < length segs \<Longrightarrow>
   inferLoop i segs ! j =
     (if i \<le> j \<and> j + 1 < length segs \<and> needsEnd (segs ! j)
      then (segs ! j)\<lparr>end_ms := Some (start_ms (segs ! (j + 1)) - 1)\<rparr>
      else segs ! j)"
proof (induction i segs rule: inferLoop.induct)
  case (1 i segs)
  show ?case
  proof (cases "i + 1 < length segs")
    case False
    then show ?thesis
      using "1.prems" by (subst inferLoop.simps) auto
  next
    case True
    let ?segs' = "if needsEnd (segs ! i)
           then segs[i := (segs ! i)\<lparr>end_ms := Some (start_ms (segs ! (i + 1)) - 1)\<rparr>]
           else segs"
    have len: "length ?segs' = length segs" by simp
    have step: "inferLoop i segs = inferLoop (i + 1) ?segs'"
      using True by (subst inferLoop.simps) simp
    have ih: "inferLoop (i + 1) ?segs' ! j =
       (if i + 1 \<le> j \<and> j + 1 < length ?segs' \<and> needsEnd (?segs' ! j)
        then (?segs' ! j)\<lparr>end_ms := Some (start_ms (?segs' ! (j + 1)) - 1)\<rparr>
        else ?segs' ! j)"
      using "1.IH"[OF True] "1.prems" len by simp
    show ?thesis
    proof (cases "j = i")
      case True
      then show ?thesis
        unfolding step ih using "1.prems" \<open>i + 1 < length segs\<close> by simp
    next
      case False
      then show ?thesis
        unfolding step ih using "1.prems" by (auto simp: nth_list_update)
    qed
  qed
qed

lemma endsInferred_nth:
  "endsInferred segs \<longleftrightarrow>
   (\<forall>j. j + 1 < length segs \<longrightarrow> needsEnd (segs ! j) \<longrightarrow>
        end_ms (segs ! j) = Some (start_ms (segs ! (j + 1)) - 1))"
proof (induction segs rule: endsInferred.induct)
  case (1 s n rest)
  show ?case
  proof
    assume l: "endsInferred (s # n # rest)"
    show "\<forall>j. j + 1 < length (s # n # rest) \<longrightarrow> needsEnd ((s # n # rest) ! j) \<longrightarrow>
        end_ms ((s # n # rest) ! j) = Some (start_ms ((s # n # rest) ! (j + 1)) - 1)"
    proof (intro allI impI)
      fix j assume "j + 1 < length (s # n # rest)" "needsEnd ((s # n # rest) ! j)"
      then show "end_ms ((s # n # rest) ! j) = Some (start_ms ((s # n # rest) ! (j + 1)) - 1)"
        using l 1 by (cases j) auto
    qed
  next
    assume r: "\<forall>j. j + 1 < length (s # n # rest) \<longrightarrow> needsEnd ((s # n # rest) ! j) \<longrightarrow>
        end_ms ((s # n # rest) ! j) = Some (start_ms ((s # n # rest) ! (j + 1)) - 1)"
    have "needsEnd s \<longrightarrow> end_ms s = Some (start_ms n - 1)"
      using r[rule_format, of 0] by simp
    moreover have "endsInferred (n # rest)"
      unfolding 1
    proof (intro allI impI)
      fix j assume "j + 1 < length (n # rest)" "needsEnd ((n # rest) ! j)"
      then show "end_ms ((n # rest) ! j) = Some (start_ms ((n # rest) ! (j + 1)) - 1)"
        using r[rule_format, of "Suc j"] by simp
    qed
    ultimately show "endsInferred (s # n # rest)" by simp
  qed
qed auto


text \<open>
  Claim C2. The three-line sample parses to three segments, in order, with the start
  times 0, 4000 and 8500 ms and the texts a, b, c, and after the end-time inference of
  \<^verbatim>\<open>onLrcFileInput\<close> their end times are 3999, 8499 and, for the last, none.
\<close>

theorem sample_lrc_segments:
  "map start_ms (onLrcFileInput ids (''[00:00.00] a'' @ [LF] @ ''[00:04.00] b'' @ [LF] @ ''[00:08.50] c''))
     = [0, 4000, 8500]
   \<and> map end_ms (onLrcFileInput ids (''[00:00.00] a'' @ [LF] @ ''[00:04.00] b'' @ [LF] @ ''[00:08.50] c''))
     = [Some 3999, Some 8499, None]
   \<and> map seg_text (onLrcFileInput ids (''[00:00.00] a'' @ [LF] @ ''[00:04.00] b'' @ [LF] @ ''[00:08.50] c''))
     = [''a'', ''b'', ''c'']"
  by code_simp

text \<open>
  Claim C3 (as amended). The inference loop run on a loaded list keeps its length;
  every segment but the last whose end time was absent, zero, or not after its start
  gets the start of the next segment minus one as end time; every other segment and
  the last one stay as they were; so the resulting list is in the state
  \<open>endsInferred\<close>. Merging a manually created segment only adds that segment and sorts:
  the segments of the merged list are the new one and the old ones, each with the end
  time it had.
\<close>

theorem end_times_inferred_at_load_only:
  "length (inferEndTimes segs) = length segs
   \<and> (\<forall>j. j + 1 < length segs \<longrightarrow>
          (needsEnd (segs ! j) \<longrightarrow>
             inferEndTimes segs ! j
             = (segs ! j)\<lparr>end_ms := Some (start_ms (segs ! (j + 1)) - 1)\<rparr>)
        \<and> (\<not> needsEnd (segs ! j) \<longrightarrow> inferEndTimes segs ! j = segs ! j))
   \<and> (segs \<noteq> [] \<longrightarrow> last (inferEndTimes segs) = last segs)
   \<and> endsInferred (inferEndTimes segs)
   \<and> mset (onWaveSelection numberToString s startMs endMs)
     = add_mset (manualSegment numberToString startMs endMs) (mset s)"
proof -
  have len: "length (inferEndTimes segs) = length segs"
    by (simp add: inferEndTimes_def inferLoop_length)
  have inner: "\<forall>j. j + 1 < length segs \<longrightarrow>
          (needsEnd (segs ! j) \<longrightarrow>
             inferEndTimes segs ! j
             = (segs ! j)\<lparr>end_ms := Some (start_ms (segs ! (j + 1)) - 1)\<rparr>)
        \<and> (\<not> needsEnd (segs ! j) \<longrightarrow> inferEndTimes segs ! j = segs ! j)"
    by (simp add: inferEndTimes_def inferLoop_nth)
  have lst: "last (inferEndTimes segs) = last segs" if "segs \<noteq> []"
  proof -
    have "inferEndTimes segs ! (length segs - 1) = segs ! (length segs - 1)"
      using that by (simp add: inferEndTimes_def inferLoop_nth)
    moreover have "inferEndTimes segs \<noteq> []"
      using that len by (metis length_0_conv)
    ultimately show ?thesis
      using that len by (simp add: last_conv_nth)
  qed
  have inferred: "endsInferred (inferEndTimes segs)"
    unfolding endsInferred_nth
  proof (intro allI impI)
    fix j assume j: "j + 1 < length (inferEndTimes segs)" and n: "needsEnd (inferEndTimes segs ! j)"
    have j': "j + 1 < length segs" using j len by simp
    have nxt: "start_ms (inferEndTimes segs ! (j + 1)) = start_ms (segs ! (j + 1))"
      using j' by (simp add: inferEndTimes_def inferLoop_nth)
    show "end_ms (inferEndTimes segs ! j) = Some (start_ms (inferEndTimes segs ! (j + 1)) - 1)"
    proof (cases "needsEnd (segs ! j)")
      case True
      then show ?thesis using inner j' nxt by simp
    next
      case False
      then have "inferEndTimes segs ! j = segs ! j" using inner j' by simp
      then show ?thesis using n False by simp
    qed
  qed
  have merge: "mset (onWaveSelection numberToString s startMs endMs)
     = add_mset (manualSegment numberToString startMs endMs) (mset s)"
    by (simp add: onWaveSelection_def)
  from len inner lst inferred merge show ?thesis by blast
qed

theorem end_times_inferred_at_load_only_witness:
  "0 + 1 < length [\<lparr>seg_id = ''s0'', start_ms = 0, end_ms = None, seg_text = ''a'', words = None\<rparr>,
                   \<lparr>seg_id = ''s1'', start_ms = 4000, end_ms = None, seg_text = ''b'', words = None\<rparr>]
   \<and> needsEnd ([\<lparr>seg_id = ''s0'', start_ms = 0, end_ms = None, seg_text = ''a'', words = None\<rparr>,
                 \<lparr>seg_id = ''s1'', start_ms = 4000, end_ms = None, seg_text = ''b'', words = None\<rparr>] ! 0)
   \<and> inferEndTimes [\<lparr>seg_id = ''s0'', start_ms = 0, end_ms = None, seg_text = ''a'', words = None\<rparr>,
                     \<lparr>seg_id = ''s1'', start_ms = 4000, end_ms = None, seg_text = ''b'', words = None\<rparr>] ! 0
     = \<lparr>seg_id = ''s0'', start_ms = 0, end_ms = Some 3999, seg_text = ''a'', words = None\<rparr>
   \<and> last (inferEndTimes [\<lparr>seg_id = ''s0'', start_ms = 0, end_ms = None, seg_text = ''a'', words = None\<rparr>,
                     \<lparr>seg_id = ''s1'', start_ms = 4000, end_ms = None, seg_text = ''b'', words = None\<rparr>])
     = \<lparr>seg_id = ''s1'', start_ms = 4000, end_ms = None, seg_text = ''b'', words = None\<rparr>"
proof -
  let ?S = "[\<lparr>seg_id = ''s0'', start_ms = 0, end_ms = None, seg_text = ''a'', words = None\<rparr>,
             \<lparr>seg_id = ''s1'', start_ms = 4000, end_ms = None, seg_text = ''b'', words = None\<rparr>]"
  have a: "0 + 1 < length ?S" by simp
  have b: "needsEnd (?S ! 0)" by (simp add: needsEnd_def)
  have c: "?S \<noteq> []" by simp
  note t = end_times_inferred_at_load_only[of ?S]
  have "inferEndTimes ?S ! 0 = (?S ! 0)\<lparr>end_ms := Some (start_ms (?S ! (0 + 1)) - 1)\<rparr>"
    using t a b by blast
  moreover have "last (inferEndTimes ?S) = last ?S"
    using t c by blast
  ultimately show ?thesis
    using a b by simp
qed

text \<open>
  Claim C3 as stated fails after a merge: a selection from 5000 to 6000 ms merged into
  a loaded list of two segments leaves the second one, no longer the last, without an
  end time.
\<close>

theorem merge_breaks_inferred_ends_counterexample:
  "endsInferred (inferEndTimes
      [\<lparr>seg_id = ''s0'', start_ms = 0, end_ms = None, seg_text = ''a'', words = None\<rparr>,
       \<lparr>seg_id = ''s1'', start_ms = 4000, end_ms = None, seg_text = ''b'', words = None\<rparr>])
   \<and> \<not> endsInferred (onWaveSelection integerString (inferEndTimes
      [\<lparr>seg_id = ''s0'', start_ms = 0, end_ms = None, seg_text = ''a'', words = None\<rparr>,
       \<lparr>seg_id = ''s1'', start_ms = 4000, end_ms = None, seg_text = ''b'', words = None\<rparr>])
      5000 6000)"
proof -
  let ?a = "\<lparr>seg_id = ''s0'', start_ms = 0, end_ms = None, seg_text = ''a'', words = None\<rparr>"
  let ?a' = "\<lparr>seg_id = ''s0'', start_ms = 0, end_ms = Some 3999, seg_text = ''a'', words = None\<rparr>"
  let ?b = "\<lparr>seg_id = ''s1'', start_ms = 4000, end_ms = None, seg_text = ''b'', words = None\<rparr>"
  let ?m = "\<lparr>seg_id = ''manual-5000'', start_ms = 5000, end_ms = Some 6000,
             seg_text = ''Selected segment'', words = None\<rparr>"
  have loaded: "inferEndTimes [?a, ?b] = [?a', ?b]"
    by code_simp
  have "integerString 5000 = ''5000''"
    by (simp add: integerString_def)
  then have merged: "onWaveSelection integerString [?a', ?b] 5000 6000 = [?a', ?b, ?m]"
    by (simp add: onWaveSelection_def manualSegment_def)
  have "endsInferred [?a', ?b]" and "\<not> endsInferred [?a', ?b, ?m]"
    by (simp_all add: needsEnd_def)
  then show ?thesis
    unfolding loaded merged by (intro conjI)
qed

text \<open>
  Claim C4 (as amended). The list after a manual insertion is sorted ascending by start
  time, the segments of equal start time in the order they had (the new one after the
  old ones), and its ids are free of duplicates exactly when those of the existing
  list were and none of them is the id \<^verbatim>\<open>manual-<startMs>\<close> of the new segment.
\<close>

theorem manual_merge_sorted_ids:
  "sorted (map start_ms (onWaveSelection numberToString s startMs endMs))
   \<and> (\<forall>k. filter (\<lambda>x. start_ms x = k) (onWaveSelection numberToString s startMs endMs)
          = filter (\<lambda>x. start_ms x = k) (s @ [manualSegment numberToString startMs endMs]))
   \<and> (distinct (map seg_id (onWaveSelection numberToString s startMs endMs))
        \<longleftrightarrow> distinct (map seg_id s)
            \<and> ''manual-'' @ numberToString startMs \<notin> seg_id ` set s)"
proof -
  let ?seg = "manualSegment numberToString startMs endMs"
  have "mset (map seg_id (onWaveSelection numberToString s startMs endMs)) = mset (map seg_id (s @ [?seg]))"
    by (simp add: onWaveSelection_def)
  then have "distinct (map seg_id (onWaveSelection numberToString s startMs endMs))
             \<longleftrightarrow> distinct (map seg_id (s @ [?seg]))"
    by (rule mset_eq_imp_distinct_iff)
  moreover have "seg_id ?seg = ''manual-'' @ numberToString startMs"
    by (simp add: manualSegment_def)
  ultimately have ids: "distinct (map seg_id (onWaveSelection numberToString s startMs endMs))
        \<longleftrightarrow> distinct (map seg_id s)
            \<and> ''manual-'' @ numberToString startMs \<notin> seg_id ` set s"
    by auto
  have srt: "sorted (map start_ms (onWaveSelection numberToString s startMs endMs))"
    by (simp add: onWaveSelection_def sorted_sort_key)
  have stable: "\<forall>k. filter (\<lambda>x. start_ms x = k) (onWaveSelection numberToString s startMs endMs)
          = filter (\<lambda>x. start_ms x = k) (s @ [?seg])"
    unfolding onWaveSelection_def by (intro allI sort_key_stable)
  from srt stable ids show ?thesis by blast
qed

text \<open>
  Claim C4 as stated fails: the same selection committed twice gives two segments with
  the id \<^verbatim>\<open>manual-1000\<close>.
\<close>

theorem manual_merge_duplicate_id_counterexample:
  "distinct (map seg_id (onWaveSelection integerString [] 1000 2000))
   \<and> \<not> distinct (map seg_id
        (onWaveSelection integerString (onWaveSelection integerString [] 1000 2000) 1000 2000))"
proof -
  let ?m = "\<lparr>seg_id = ''manual-1000'', start_ms = 1000, end_ms = Some 2000,
             seg_text = ''Selected segment'', words = None\<rparr>"
  have "integerString 1000 = ''1000''"
    by (simp add: integerString_def)
  then have seg: "manualSegment integerString 1000 2000 = ?m"
    by (simp add: manualSegment_def)
  have once: "onWaveSelection integerString [] 1000 2000 = [?m]"
    by (simp add: onWaveSelection_def seg)
  have twice: "onWaveSelection integerString [?m] 1000 2000 = [?m, ?m]"
    by (simp add: onWaveSelection_def seg)
  show ?thesis
    unfolding once twice by simp
qed

subsection \<open>Waveform editor: selection gesture and peak columns\<close>

text \<open>
  The state the pointer handlers of \<^verbatim>\<open>WaveformEditor\<close> share: the flag \<^verbatim>\<open>dragging\<close> and
  \<^verbatim>\<open>selRef.current\<close>, the anchor \<^verbatim>\<open>a\<close> and the moving end \<^verbatim>\<open>b\<close> in milliseconds, or
  \<^verbatim>\<open>null\<close>.
\<close>

record DragState =
  dragging :: bool
  selRef :: "(real \<times> real) option"

text \<open>
  \<^verbatim>\<open>toMs\<close>, lines 428 to 432: the time under a pointer position, from the left edge and
  the width of the canvas and the duration of the decoded buffer in seconds (\<open>None\<close>
  without a buffer). The canvas is taken to have a positive width: for a width of 0
  the division of the source gives an infinity or \<^verbatim>\<open>NaN\<close>.
\<close>

definition toMs :: "real \<Rightarrow> real \<Rightarrow> real option \<Rightarrow> real \<Rightarrow> real" where
  "toMs rectLeft rectWidth duration clientX =
     (let frac = min 1 (max 0 ((clientX - rectLeft) / rectWidth))
      in case duration of Some d \<Rightarrow> d * 1000 * frac | None \<Rightarrow> 0)"

text \<open>
  The handlers, lines 449 to 467. Each reads the canvas and the buffer as they are when
  the event arrives, so each takes the pixel-to-time mapping of that moment,
  \<open>toMsNow\<close>, and the \<^verbatim>\<open>clientX\<close> of the event. \<open>onPointerUp\<close> also returns what it passes
  to the \<^verbatim>\<open>onSelection\<close> callback, \<open>None\<close> when it returns early.
\<close>

definition onPointerDown :: "(real \<Rightarrow> real) \<Rightarrow> real \<Rightarrow> DragState \<Rightarrow> DragState" where
  "onPointerDown toMsNow clientX st =
     \<lparr>dragging = True, selRef = Some (toMsNow clientX, toMsNow clientX)\<rparr>"

definition onPointerMove :: "(real \<Rightarrow> real) \<Rightarrow> real \<Rightarrow> DragState \<Rightarrow> DragState" where
  "onPointerMove toMsNow clientX st =
     (case selRef st of
        None \<Rightarrow> st
      | Some (a, b) \<Rightarrow>
          if \<not> dragging st then st else st\<lparr>selRef := Some (a, toMsNow clientX)\<rparr>)"

definition onPointerUp ::
  "(real \<Rightarrow> real) \<Rightarrow> real \<Rightarrow> DragState \<Rightarrow> DragState \<times> (real \<times> real) option" where
  "onPointerUp toMsNow clientX st =
     (case selRef st of
        None \<Rightarrow> (st, None)
      | Some (a, b) \<Rightarrow>
          if \<not> dragging st then (st, None)
          else (let b' = toMsNow clientX
                in (\<lparr>dragging = False, selRef = Some (a, b')\<rparr>, Some (min a b', max a b'))))"

text \<open>The pointer moves of a gesture, in order.\<close>

definition drag :: "((real \<Rightarrow> real) \<times> real) list \<Rightarrow> DragState \<Rightarrow> DragState" where
  "drag moves st = foldl (\<lambda>st (toMsNow, clientX). onPointerMove toMsNow clientX st) st moves"

lemma drag_keeps_anchor:
  "dragging st \<Longrightarrow> selRef st = Some (a, b) \<Longrightarrow>
   dragging (drag moves st) \<and> (\<exists>b'. selRef (drag moves st) = Some (a, b'))"
proof (induction moves arbitrary: st b)
  case Nil
  then show ?case by (simp add: drag_def)
next
  case (Cons m moves)
  obtain f x where m: "m = (f, x)" by (cases m)
  have "dragging (onPointerMove f x st)" and "selRef (onPointerMove f x st) = Some (a, f x)"
    using Cons.prems by (simp_all add: onPointerMove_def)
  then have "dragging (drag moves (onPointerMove f x st))
      \<and> (\<exists>b'. selRef (drag moves (onPointerMove f x st)) = Some (a, b'))"
    by (rule Cons.IH)
  then show ?case
    using m by (simp add: drag_def)
qed

lemma gesture_commit:
  "snd (onPointerUp f1 x1 (drag moves (onPointerDown f0 x0 st)))
   = Some (min (f0 x0) (f1 x1), max (f0 x0) (f1 x1))"
proof -
  have "dragging (onPointerDown f0 x0 st)" and "selRef (onPointerDown f0 x0 st) = Some (f0 x0, f0 x0)"
    by (simp_all add: onPointerDown_def)
  then obtain b' where "dragging (drag moves (onPointerDown f0 x0 st))"
    and "selRef (drag moves (onPointerDown f0 x0 st)) = Some (f0 x0, b')"
    using drag_keeps_anchor by blast
  then show ?thesis
    by (simp add: onPointerUp_def Let_def)
qed

text \<open>
  \<^verbatim>\<open>draw\<close>, lines 406 to 420. \<open>scanChunk\<close> is the inner loop
  \<^verbatim>\<open>for (let j = 0; j < step; j++)\<close> of column \<open>i\<close> on its variables \<^verbatim>\<open>min\<close> and \<^verbatim>\<open>max\<close>,
  with its \<^verbatim>\<open>break\<close> at the end of the samples; \<open>columnPeaks\<close> is the pair each of the
  \<open>w\<close> columns is drawn from, \<^verbatim>\<open>step = Math.max(1, Math.floor(ch.length / w))\<close>.
\<close>

function scanChunk :: "real list \<Rightarrow> nat \<Rightarrow> nat \<Rightarrow> nat \<Rightarrow> real \<times> real \<Rightarrow> real \<times> real" where
  "scanChunk ch i step j (mn, mx) =
     (if j < step then
        (let idx = i * step + j in
         if length ch \<le> idx then (mn, mx)
         else (let v = ch ! idx in
               scanChunk ch i step (j + 1)
                 (if v < mn then v else mn, if mx < v then v else mx)))
      else (mn, mx))"
  by pat_completeness auto
termination
  by (relation "measure (\<lambda>(ch, i, step, j, acc). step - j)") auto

definition columnPeaks :: "real list \<Rightarrow> nat \<Rightarrow> (real \<times> real) list" where
  "columnPeaks ch w =
     (let step = max 1 (length ch div w)
      in map (\<lambda>i. scanChunk ch i step 0 (1, - 1)) [0..<w])"

text \<open>
  The envelope as the specification words it, to be compared with \<open>columnPeaks\<close>:
  chunks of \<open>ceil(sampleCount / targetWidthPx)\<close> samples, the minimum and maximum of
  each, and silence for an empty chunk.
\<close>

definition specChunk :: "real list \<Rightarrow> nat \<Rightarrow> nat \<Rightarrow> real list" where
  "specChunk samples w i =
     (let c = (length samples + w - 1) div w in take c (drop (i * c) samples))"

definition buildPeakEnvelope :: "real list \<Rightarrow> nat \<Rightarrow> (real \<times> real) list" where
  "buildPeakEnvelope samples w =
     map (\<lambda>i. let chunk = specChunk samples w i
              in if chunk = [] then (0, 0) else (Min (set chunk), Max (set chunk)))
       [0..<w]"

declare scanChunk.simps [simp del]

lemma scanChunk_fold:
  "scanChunk ch i step j (mn, mx)
   = (foldl min mn (take (step - j) (drop (i * step + j) ch)),
      foldl max mx (take (step - j) (drop (i * step + j) ch)))"
proof (induction ch i step j "(mn, mx)" arbitrary: mn mx rule: scanChunk.induct)
  case (1 ch i step j mn mx)
  show ?case
  proof (cases "j < step")
    case False
    then show ?thesis by (subst scanChunk.simps) simp
  next
    case True
    show ?thesis
    proof (cases "length ch \<le> i * step + j")
      case out: True
      then show ?thesis
        using True by (subst scanChunk.simps) simp
    next
      case inr: False
      let ?v = "ch ! (i * step + j)"
      have d: "drop (i * step + j) ch = ?v # drop (i * step + (j + 1)) ch"
        using inr by (simp add: Cons_nth_drop_Suc)
      have t: "step - j = Suc (step - (j + 1))"
        using True by simp
      have step: "scanChunk ch i step j (mn, mx)
            = scanChunk ch i step (j + 1) (if ?v < mn then ?v else mn, if mx < ?v then ?v else mx)"
        using True inr by (subst scanChunk.simps) (simp add: Let_def)
      have mins: "(if ?v < mn then ?v else mn) = min mn ?v"
        and maxs: "(if mx < ?v then ?v else mx) = max mx ?v"
        by (auto simp: min_def max_def)
      show ?thesis
        unfolding step
        using "1.hyps"[OF True refl inr refl]
        unfolding d t mins maxs by simp
    qed
  qed
qed

lemma foldl_min_Min: "foldl min a xs = Min (insert a (set xs))"
proof (induction xs arbitrary: a)
  case Nil
  then show ?case by simp
next
  case (Cons x xs)
  have "Min (insert (min a x) (set xs)) = Min (insert a (insert x (set xs)))"
    by (cases "set xs = {}") (auto simp: min.assoc)
  then show ?case
    using Cons.IH[of "min a x"] by simp
qed

lemma foldl_max_Max: "foldl max a xs = Max (insert a (set xs))"
proof (induction xs arbitrary: a)
  case Nil
  then show ?case by simp
next
  case (Cons x xs)
  have "Max (insert (max a x) (set xs)) = Max (insert a (insert x (set xs)))"
    by (cases "set xs = {}") (auto simp: max.assoc)
  then show ?case
    using Cons.IH[of "max a x"] by simp
qed

lemma column_value:
  assumes "\<forall>v\<in>set ch. - 1 \<le> v \<and> v \<le> 1"
  shows "scanChunk ch i step 0 (1, - 1)
         = (let chunk = take step (drop (i * step) ch)
            in if chunk = [] then (1, - 1) else (Min (set chunk), Max (set chunk)))"
proof -
  let ?c = "take step (drop (i * step) ch)"
  have sub: "set ?c \<subseteq> set ch"
    by (meson set_drop_subset set_take_subset subset_trans)
  have run: "scanChunk ch i step 0 (1, - 1) = (Min (insert 1 (set ?c)), Max (insert (- 1) (set ?c)))"
    by (simp add: scanChunk_fold foldl_min_Min foldl_max_Max)
  show ?thesis
  proof (cases "?c = []")
    case True
    have "scanChunk ch i step 0 (1, - 1) = (1, - 1)"
      using run unfolding True by simp
    then show ?thesis
      unfolding Let_def True by simp
  next
    case False
    then have ne: "set ?c \<noteq> {}" by simp
    have le: "Min (set ?c) \<le> 1"
      using ne sub assms by (meson List.finite_set Min_in subsetD)
    have "Min (insert 1 (set ?c)) = min 1 (Min (set ?c))"
      using ne by (intro Min_insert) simp_all
    also have "\<dots> = Min (set ?c)"
      using le by (rule min_absorb2)
    finally have mn: "Min (insert 1 (set ?c)) = Min (set ?c)" .
    have ge: "- 1 \<le> Max (set ?c)"
      using ne sub assms by (meson List.finite_set Max_in subsetD)
    have "Max (insert (- 1) (set ?c)) = max (- 1) (Max (set ?c))"
      using ne by (intro Max_insert) simp_all
    also have "\<dots> = Max (set ?c)"
      using ge by (rule max_absorb2)
    finally have mx: "Max (insert (- 1) (set ?c)) = Max (set ?c)" .
    show ?thesis
      unfolding run mn mx Let_def using False by (simp only: if_False)
  qed
qed

text \<open>
  Claim C8. A gesture (press, any number of moves, release) with the anchor time
  \<open>a = f0 x0\<close> and the release time \<open>b = f1 x1\<close>, in either order or equal, commits
  \<open>(min a b, max a b)\<close>, and the segment made of a committed selection has an end time
  and a start time no later than it. A drag from pixel 10 to pixel 5 on a canvas 300
  pixels wide over a buffer of 10000 ms commits a segment from 166 to 333 ms.
\<close>

theorem selection_normalised:
  "snd (onPointerUp f1 x1 (drag moves (onPointerDown f0 x0 st)))
     = Some (min (f0 x0) (f1 x1), max (f0 x0) (f1 x1))
   \<and> end_ms (manualSegment numberToString (min a b) (max a b)) = Some \<lfloor>max a b\<rfloor>
   \<and> start_ms (manualSegment numberToString (min a b) (max a b)) \<le> \<lfloor>max a b\<rfloor>
   \<and> snd (onPointerUp (toMs 0 300 (Some 10)) 5 (drag [] (onPointerDown (toMs 0 300 (Some 10)) 10 st)))
     = Some (500 / 3, 1000 / 3)
   \<and> start_ms (manualSegment numberToString (500 / 3) (1000 / 3)) = 166
   \<and> end_ms (manualSegment numberToString (500 / 3) (1000 / 3)) = Some 333"
proof -
  have ends: "end_ms (manualSegment numberToString (min a b) (max a b)) = Some \<lfloor>max a b\<rfloor>"
    by (simp add: manualSegment_def)
  have "\<lfloor>min a b\<rfloor> \<le> \<lfloor>max a b\<rfloor>"
    by (rule floor_mono) simp
  then have order: "start_ms (manualSegment numberToString (min a b) (max a b)) \<le> \<lfloor>max a b\<rfloor>"
    by (simp add: manualSegment_def)
  have "toMs 0 300 (Some 10) 10 = 1000 / 3" and "toMs 0 300 (Some 10) 5 = 500 / 3"
    by (simp_all add: toMs_def)
  then have scenario: "snd (onPointerUp (toMs 0 300 (Some 10)) 5
        (drag [] (onPointerDown (toMs 0 300 (Some 10)) 10 st))) = Some (500 / 3, 1000 / 3)"
    unfolding gesture_commit by simp
  have s1: "start_ms (manualSegment numberToString (500 / 3) (1000 / 3)) = 166"
    and s2: "end_ms (manualSegment numberToString (500 / 3) (1000 / 3)) = Some 333"
    by (simp_all add: manualSegment_def)
  from gesture_commit[of f1 x1 moves f0 x0 st] ends order scenario s1 s2
  show ?thesis by blast
qed

lemma columnPeaks_length: "length (columnPeaks ch w) = w"
  by (simp add: columnPeaks_def Let_def)

text \<open>
  Claim C7 (as amended). For samples between \<open>-1\<close> and \<open>1\<close> and any width \<open>w\<close>, the drawn
  envelope has \<open>w\<close> columns, and column \<open>i\<close> holds the minimum and maximum of the chunk
  of \<open>step = max(1, floor(sampleCount / w))\<close> samples that starts at sample \<open>i * step\<close>
  (shorter at the end of the samples); a column whose chunk is empty holds the initial
  pair \<open>(1, -1)\<close>.
\<close>

theorem column_peaks_floor_chunks:
  assumes "\<forall>v\<in>set ch. - 1 \<le> v \<and> v \<le> 1"
  shows "length (columnPeaks ch w) = w
       \<and> (\<forall>i<w. columnPeaks ch w ! i
              = (let step = max 1 (length ch div w);
                     chunk = take step (drop (i * step) ch)
                 in if chunk = [] then (1, - 1) else (Min (set chunk), Max (set chunk))))"
proof (intro conjI allI impI)
  show "length (columnPeaks ch w) = w"
    by (rule columnPeaks_length)
next
  fix i assume "i < w"
  then have "columnPeaks ch w ! i = scanChunk ch i (max 1 (length ch div w)) 0 (1, - 1)"
    by (simp add: columnPeaks_def Let_def)
  then show "columnPeaks ch w ! i
              = (let step = max 1 (length ch div w);
                     chunk = take step (drop (i * step) ch)
                 in if chunk = [] then (1, - 1) else (Min (set chunk), Max (set chunk)))"
    using column_value[OF assms, of i "max 1 (length ch div w)"] by (simp add: Let_def)
qed

theorem column_peaks_floor_chunks_witness:
  "columnPeaks [1 / 2, - 1 / 4, 0, 1 / 4, 3 / 4] 2 ! 1 = (0, 1 / 4)
   \<and> length (columnPeaks [1 / 2, - 1 / 4, 0, 1 / 4, 3 / 4] 2) = 2"
proof -
  let ?ch = "[1 / 2, - 1 / 4, 0, 1 / 4, 3 / 4] :: real list"
  have h: "\<forall>v\<in>set ?ch. - 1 \<le> v \<and> v \<le> 1" by simp
  note t = column_peaks_floor_chunks[OF h, of 2]
  have "columnPeaks ?ch 2 ! 1
        = (let step = max 1 (length ?ch div 2);
               chunk = take step (drop (1 * step) ?ch)
           in if chunk = [] then (1, - 1) else (Min (set chunk), Max (set chunk)))"
    by (rule t[THEN conjunct2, rule_format]) simp
  also have "\<dots> = (0, 1 / 4)"
    by code_simp
  finally have "columnPeaks ?ch 2 ! 1 = (0, 1 / 4)" .
  with t[THEN conjunct1] show ?thesis
    by (intro conjI)
qed

text \<open>
  Claim C7 as stated fails: on three samples and two columns the chunks of the code
  have one sample, not two, so the last sample is never drawn; and on one sample and
  two columns the second column is neither silence nor the first column.
\<close>

theorem column_peaks_spec_chunks_counterexample:
  "columnPeaks [0, 0, 1 / 2] 2 \<noteq> buildPeakEnvelope [0, 0, 1 / 2] 2
   \<and> columnPeaks [1 / 2] 2 ! 1 \<noteq> (0, 0)
   \<and> columnPeaks [1 / 2] 2 ! 1 \<noteq> columnPeaks [1 / 2] 2 ! 0"
  by code_simp

subsection \<open>VirtualList: the rendered window\<close>

text \<open>
  Lines 65 and 66 of \<^verbatim>\<open>VirtualList.tsx\<close>. \<^verbatim>\<open>scrollTop\<close>, \<^verbatim>\<open>itemHeight\<close> and
  \<^verbatim>\<open>height\<close> are pixel quantities, \<^verbatim>\<open>overscan\<close> a row count (5 when the property
  is not given), and the first argument of \<open>endIndex\<close> is \<^verbatim>\<open>items.length\<close>.
\<close>

definition startIndex :: "real \<Rightarrow> real \<Rightarrow> int \<Rightarrow> int" where
  "startIndex scrollTop itemHeight overscan =
     max 0 (\<lfloor>scrollTop / itemHeight\<rfloor> - overscan)"

definition endIndex :: "nat \<Rightarrow> real \<Rightarrow> real \<Rightarrow> real \<Rightarrow> int \<Rightarrow> int" where
  "endIndex n scrollTop height itemHeight overscan =
     min (int n - 1) (\<lfloor>(scrollTop + height) / itemHeight\<rfloor> + overscan)"

text \<open>
  \<^verbatim>\<open>Array.prototype.slice(s, e)\<close>: a negative bound counts from the end, both bounds
  are clamped to the array, and an empty range gives the empty array.
\<close>

definition slice :: "'a list \<Rightarrow> int \<Rightarrow> int \<Rightarrow> 'a list" where
  "slice xs s e =
     (let n = int (length xs);
          k = (if s < 0 then max (n + s) 0 else min s n);
          f = (if e < 0 then max (n + e) 0 else min e n)
      in take (nat (f - k)) (drop (nat k) xs))"

text \<open>Line 68: \<^verbatim>\<open>const visible = items.slice(startIndex, endIndex + 1)\<close>.\<close>

definition visible :: "'a list \<Rightarrow> real \<Rightarrow> real \<Rightarrow> real \<Rightarrow> int \<Rightarrow> 'a list" where
  "visible items scrollTop height itemHeight overscan =
     slice items (startIndex scrollTop itemHeight overscan)
       (endIndex (length items) scrollTop height itemHeight overscan + 1)"

text \<open>
  The window as the specification words it, over its viewport state, to be compared
  with the two definitions above.
\<close>

record ViewportState =
  scrollOffsetPx :: real
  itemHeightPx :: real
  viewportHeightPx :: real
  overscanCount :: int

definition computeVisibleRange :: "ViewportState \<Rightarrow> nat \<Rightarrow> int \<times> int" where
  "computeVisibleRange vp itemCount =
     (max 0 (\<lfloor>scrollOffsetPx vp / itemHeightPx vp\<rfloor> - overscanCount vp),
      min (int itemCount - 1)
        (\<lfloor>(scrollOffsetPx vp + viewportHeightPx vp) / itemHeightPx vp\<rfloor> + overscanCount vp))"

lemma take_drop_nth: "k + m \<le> length xs \<Longrightarrow> take m (drop k xs) = map (nth xs) [k..<k + m]"
  by (rule nth_equalityI) auto

lemma slice_window:
  assumes "0 \<le> s" "- 1 \<le> e" "e < int (length xs)"
  shows "slice xs s (e + 1) = map (nth xs) [nat s..<nat (e + 1)]"
proof (cases "s \<le> e + 1")
  case True
  have "take (nat (e + 1 - s)) (drop (nat s) xs) = map (nth xs) [nat s..<nat s + nat (e + 1 - s)]"
    using assms True by (intro take_drop_nth) linarith
  moreover have "nat s + nat (e + 1 - s) = nat (e + 1)"
    using assms True by linarith
  ultimately show ?thesis
    using assms True by (simp add: slice_def Let_def min_def)
next
  case False
  then show ?thesis
    using assms by (simp add: slice_def Let_def min_def)
qed

lemma endIndex_bounds:
  assumes "0 \<le> scrollTop" "0 < itemHeight" "0 < height" "0 \<le> overscan"
  shows "- 1 \<le> endIndex n scrollTop height itemHeight overscan"
    and "endIndex n scrollTop height itemHeight overscan < int n"
proof -
  have "0 \<le> (scrollTop + height) / itemHeight"
    using assms by simp
  then have "0 \<le> \<lfloor>(scrollTop + height) / itemHeight\<rfloor>"
    by simp
  then show "- 1 \<le> endIndex n scrollTop height itemHeight overscan"
    unfolding endIndex_def using assms(4) by linarith
  show "endIndex n scrollTop height itemHeight overscan < int n"
    by (simp add: endIndex_def)
qed

text \<open>
  Claim C5 (as amended). For a viewport with \<open>scrollTop \<ge> 0\<close>, \<open>itemHeight > 0\<close>,
  \<open>height > 0\<close> and \<open>overscan \<ge> 0\<close> and any list of items, the window of the list is
  \<open>start = max(0, floor(scrollTop / itemHeight) - overscan)\<close> and
  \<open>end = min(itemCount - 1, floor((scrollTop + height) / itemHeight) + overscan)\<close>, the
  rendered rows are the items at the indices from \<open>start\<close> to \<open>end\<close> and no others, and
  with 1000 items, item height 56, viewport height 560, scroll offset 560 and overscan
  5 the window is the indices 5 through 25.
\<close>

theorem visible_range_window:
  assumes "0 \<le> scrollTop" and "0 < itemHeight" and "0 < height" and "0 \<le> overscan"
  shows "(startIndex scrollTop itemHeight overscan,
          endIndex (length items) scrollTop height itemHeight overscan)
         = computeVisibleRange
             \<lparr>scrollOffsetPx = scrollTop, itemHeightPx = itemHeight,
              viewportHeightPx = height, overscanCount = overscan\<rparr> (length items)
       \<and> visible items scrollTop height itemHeight overscan
         = map (nth items)
             [nat (startIndex scrollTop itemHeight overscan)
              ..<nat (endIndex (length items) scrollTop height itemHeight overscan + 1)]
       \<and> (startIndex 560 56 5, endIndex 1000 560 560 56 5) = (5, 25)"
proof -
  have formula: "(startIndex scrollTop itemHeight overscan,
          endIndex (length items) scrollTop height itemHeight overscan)
         = computeVisibleRange
             \<lparr>scrollOffsetPx = scrollTop, itemHeightPx = itemHeight,
              viewportHeightPx = height, overscanCount = overscan\<rparr> (length items)"
    by (simp add: startIndex_def endIndex_def computeVisibleRange_def)
  have "0 \<le> startIndex scrollTop itemHeight overscan"
    by (simp add: startIndex_def)
  then have rows: "visible items scrollTop height itemHeight overscan
         = map (nth items)
             [nat (startIndex scrollTop itemHeight overscan)
              ..<nat (endIndex (length items) scrollTop height itemHeight overscan + 1)]"
    unfolding visible_def using endIndex_bounds[OF assms] by (intro slice_window)
  have scenario: "(startIndex 560 56 5, endIndex 1000 560 560 56 5) = (5, 25)"
    by (simp add: startIndex_def endIndex_def)
  from formula rows scenario show ?thesis by blast
qed

theorem visible_range_window_witness:
  "(0::real) \<le> 56 \<and> (0::real) < 56 \<and> (0::int) \<le> 0
   \<and> (startIndex 56 56 0, endIndex (length [''a'', ''b'', ''c'']) 56 56 56 0) = (1, 2)
   \<and> visible [''a'', ''b'', ''c''] 56 56 56 0 = [''b'', ''c'']"
  using visible_range_window[of 56 56 56 0 "[''a'', ''b'', ''c'']"]
  by (simp add: startIndex_def endIndex_def upt_rec)

text \<open>
  The scenario of claim C5 as the specification states it, a window ending at index 20,
  is not what the code computes: the overscan is added at the end as well.
\<close>

theorem visible_range_scenario_counterexample:
  "(startIndex 560 56 5, endIndex 1000 560 560 56 5) \<noteq> (5, 20)"
  by (simp add: startIndex_def endIndex_def)

end
